theory Spec2Isabelle
  imports Complex_Main "HOL-Library.Sublist"
begin

text \<open>
  A model of the RAG service and of the maintenance scripts of the repository: the
  retrieval-depth heuristic and the source-name cleaning, the upload and bulk paths of
  the service with their batching and error handling, the collection statistics, and
  the status and reset scripts over the manifest table. External libraries (parsers, text
  splitter, vector store, SQLite) appear as parameters or with the semantics the code
  relies on.
\<close>

section \<open>JavaScript values used by the services\<close>

text \<open>
  Strings are lists of code units. The model uses the 8-bit \<^typ>\<open>char\<close>, so it covers the
  strings whose code units lie in the range 0..255; \<open>length\<close> is JavaScript's
  \<^verbatim>\<open>.length\<close> on such strings. A JavaScript number is a finite value, one of the two
  infinities, or NaN.
\<close>

datatype js_number = Num real | PosInf | NegInf | NaN

definition bslash :: char where
  "bslash = CHR 0x5C"

definition js_number_truthy :: "js_number \<Rightarrow> bool" where
  "js_number_truthy v = (case v of Num r \<Rightarrow> r \<noteq> 0 | PosInf \<Rightarrow> True | NegInf \<Rightarrow> True | NaN \<Rightarrow> False)"

definition js_gt :: "js_number \<Rightarrow> real \<Rightarrow> bool" where
  "js_gt v c = (case v of Num r \<Rightarrow> r > c | PosInf \<Rightarrow> True | NegInf \<Rightarrow> False | NaN \<Rightarrow> False)"

definition js_le :: "js_number \<Rightarrow> real \<Rightarrow> bool" where
  "js_le v c = (case v of Num r \<Rightarrow> r \<le> c | PosInf \<Rightarrow> False | NegInf \<Rightarrow> True | NaN \<Rightarrow> False)"

subsection \<open>Character classes of the regular expressions\<close>

definition code :: "char \<Rightarrow> nat" where
  "code c = of_char c"

definition is_upper :: "char \<Rightarrow> bool" where
  "is_upper c = (65 \<le> code c \<and> code c \<le> 90)"

definition is_lower :: "char \<Rightarrow> bool" where
  "is_lower c = (97 \<le> code c \<and> code c \<le> 122)"

definition is_digit :: "char \<Rightarrow> bool" where
  "is_digit c = (48 \<le> code c \<and> code c \<le> 57)"

definition is_word_char :: "char \<Rightarrow> bool" where
  "is_word_char c = (is_upper c \<or> is_lower c \<or> is_digit c \<or> c = CHR ''_'')"

text \<open>
  White space as \<^verbatim>\<open>\s\<close> and \<^verbatim>\<open>String.prototype.trim\<close> see it, among the code
  units below 256: tab, line feed, vertical tab, form feed, carriage return, space and the
  no-break space.
\<close>

definition is_space :: "char \<Rightarrow> bool" where
  "is_space c = (code c \<in> {9, 10, 11, 12, 13, 32, 160})"

text \<open>
  Canonicalisation under the \<^verbatim>\<open>i\<close> flag: a lower-case ASCII letter is compared as its
  upper-case form. No other code unit below 256 canonicalises to an ASCII letter.
\<close>

definition canon :: "char \<Rightarrow> char" where
  "canon c = (if is_lower c then char_of (code c - 32) else c)"

subsection \<open>A matcher for the regular expressions of the source\<close>

datatype regex =
    Lit string
  | Class "char \<Rightarrow> bool"
  | Plus "char \<Rightarrow> bool"
  | Seq regex regex
  | Alt regex regex
  | WordB
  | Bol
  | Eol

definition lit_matches :: "bool \<Rightarrow> string \<Rightarrow> string \<Rightarrow> bool" where
  "lit_matches ci w s =
     (length w \<le> length s \<and>
      (if ci then map canon (take (length w) s) = map canon w else take (length w) s = w))"

definition char_before :: "string \<Rightarrow> nat \<Rightarrow> bool" where
  "char_before s i = (0 < i \<and> i \<le> length s \<and> is_word_char (s ! (i - 1)))"

definition char_after :: "string \<Rightarrow> nat \<Rightarrow> bool" where
  "char_after s i = (i < length s \<and> is_word_char (s ! i))"

text \<open>
  \<open>match_at ci r s i\<close> lists the positions at which a match of \<open>r\<close> that starts at
  position \<open>i\<close> of \<open>s\<close> can end, in the order in which a backtracking matcher tries them.
\<close>

fun match_at :: "bool \<Rightarrow> regex \<Rightarrow> string \<Rightarrow> nat \<Rightarrow> nat list" where
  "match_at ci (Lit w) s i = (if lit_matches ci w (drop i s) then [i + length w] else [])"
| "match_at ci (Class p) s i = (if i < length s \<and> p (s ! i) then [i + 1] else [])"
| "match_at ci (Plus p) s i =
     map (\<lambda>k. i + k) (rev [1 ..< Suc (length (takeWhile p (drop i s)))])"
| "match_at ci (Seq r1 r2) s i = concat (map (match_at ci r2 s) (match_at ci r1 s i))"
| "match_at ci (Alt r1 r2) s i = match_at ci r1 s i @ match_at ci r2 s i"
| "match_at ci WordB s i = (if char_before s i \<noteq> char_after s i then [i] else [])"
| "match_at ci Bol s i = (if i = 0 then [i] else [])"
| "match_at ci Eol s i = (if i = length s then [i] else [])"

text \<open>\<^verbatim>\<open>regex.test(s)\<close>: the expression matches at some start position.\<close>

definition regex_test :: "bool \<Rightarrow> regex \<Rightarrow> string \<Rightarrow> bool" where
  "regex_test ci r s = (\<exists>i \<in> set [0 ..< Suc (length s)]. match_at ci r s i \<noteq> [])"

fun alts :: "regex list \<Rightarrow> regex" where
  "alts [] = Class (\<lambda>_. False)"
| "alts [r] = r"
| "alts (r # rs) = Alt r (alts rs)"

subsection \<open>String operations\<close>

text \<open>\<^verbatim>\<open>s.includes(sub)\<close>\<close>

fun js_includes :: "string \<Rightarrow> string \<Rightarrow> bool" where
  "js_includes [] sub = (sub = [])"
| "js_includes (c # cs) sub = (prefix sub (c # cs) \<or> js_includes cs sub)"

text \<open>
  \<^verbatim>\<open>s.split(sep)\<close> for a string separator: the pieces between the successive
  non-overlapping occurrences of \<open>sep\<close>, found from the left. \<open>acc\<close> holds the current
  piece, reversed.
\<close>

function split_aux :: "string \<Rightarrow> string \<Rightarrow> string \<Rightarrow> string list" where
  "split_aux sep acc [] = [rev acc]"
| "split_aux sep acc (c # cs) =
     (if sep \<noteq> [] \<and> prefix sep (c # cs)
      then rev acc # split_aux sep [] (drop (length sep) (c # cs))
      else split_aux sep (c # acc) cs)"
  by pat_completeness auto
termination
  by (relation "measure (\<lambda>(sep, acc, s). length s)") (auto simp: neq_Nil_conv)

definition js_split :: "string \<Rightarrow> string \<Rightarrow> string list" where
  "js_split s sep =
     (if sep = [] then map (\<lambda>c. [c]) s
      else if s = [] then [[]]
      else split_aux sep [] s)"

text \<open>\<^verbatim>\<open>s.split(/[\\/]/)\<close>: the pieces between the characters of a class.\<close>

fun split_class_aux :: "(char \<Rightarrow> bool) \<Rightarrow> string \<Rightarrow> string \<Rightarrow> string list" where
  "split_class_aux p acc [] = [rev acc]"
| "split_class_aux p acc (c # cs) =
     (if p c then rev acc # split_class_aux p [] cs else split_class_aux p (c # acc) cs)"

definition split_class :: "(char \<Rightarrow> bool) \<Rightarrow> string \<Rightarrow> string list" where
  "split_class p s = split_class_aux p [] s"

definition is_slash :: "char \<Rightarrow> bool" where
  "is_slash c = (c = bslash \<or> c = CHR ''/'')"

text \<open>\<^verbatim>\<open>xs[i]\<close>: \<open>None\<close> is \<^verbatim>\<open>undefined\<close>.\<close>

definition js_index :: "'a list \<Rightarrow> nat \<Rightarrow> 'a option" where
  "js_index xs i = (if i < length xs then Some (xs ! i) else None)"

text \<open>\<^verbatim>\<open>xs.pop()\<close> as a value: the last element, \<^verbatim>\<open>undefined\<close> on the empty array.\<close>

definition js_pop :: "'a list \<Rightarrow> 'a option" where
  "js_pop xs = (if xs = [] then None else Some (last xs))"

section \<open>Source names\<close>

text \<open>
  \<^verbatim>\<open>cleanSourceName(sourcePath)\<close> of the RAG service and of the source-cleaning test script.
  The argument \<open>None\<close> stands for \<^verbatim>\<open>null\<close> and \<^verbatim>\<open>undefined\<close>; the result \<open>None\<close>
  stands for \<^verbatim>\<open>undefined\<close>.
\<close>

definition split11 :: string where
  "split11 = ''split 11'' @ [bslash]"

definition cleanSourceName :: "string option \<Rightarrow> string option" where
  "cleanSourceName sourcePath =
     (case sourcePath of
        None \<Rightarrow> Some ''Unknown''
      | Some p \<Rightarrow>
          if p = [] then Some ''Unknown''
          else if js_includes p split11 then js_index (js_split p split11) 1
          else (case js_pop (split_class is_slash p) of
                  None \<Rightarrow> Some p
                | Some seg \<Rightarrow> if seg = [] then Some p else Some seg))"

section \<open>Retrieval depth\<close>

definition hasTechnicalTerms :: "string \<Rightarrow> bool" where
  "hasTechnicalTerms query =
     regex_test False (Alt (Seq (Class is_upper) (Plus is_upper)) (Plus is_digit)) query"

definition complexWordsRegex :: regex where
  "complexWordsRegex =
     Seq WordB
       (Seq (alts [Lit ''how'', Lit ''why'', Lit ''explain'', Lit ''analyze'', Lit ''compare'',
                   Lit ''difference'', Seq (Lit ''what'') (Seq (Plus is_space) (Lit ''is'')),
                   Lit ''describe'', Lit ''elaborate'', Lit ''detailed''])
            WordB)"

definition hasComplexWords :: "string \<Rightarrow> bool" where
  "hasComplexWords query = regex_test True complexWordsRegex query"

definition hasMultipleQuestions :: "string \<Rightarrow> bool" where
  "hasMultipleQuestions query = (length (filter (\<lambda>c. c = CHR ''?'') query) > 1)"

text \<open>
  \<^verbatim>\<open>getOptimalTopK(query, userTopK = null)\<close>. \<open>None\<close> is a missing or \<^verbatim>\<open>null\<close>
  override. The log line written on each path is not part of the value and is left out.
\<close>

definition classifyTopK :: "nat \<Rightarrow> bool \<Rightarrow> bool \<Rightarrow> bool \<Rightarrow> real" where
  "classifyTopK queryLength technical complex multiple =
     (if queryLength < 20 \<and> \<not> complex \<and> \<not> technical then 3
      else if queryLength < 50 \<or> technical then 6
      else if complex \<or> multiple then 8
      else 10)"

definition userTopK_accepted :: "js_number option \<Rightarrow> bool" where
  "userTopK_accepted userTopK =
     (case userTopK of
        None \<Rightarrow> False
      | Some k \<Rightarrow> js_number_truthy k \<and> js_gt k 0 \<and> js_le k 20)"

definition getOptimalTopK :: "string \<Rightarrow> js_number option \<Rightarrow> js_number" where
  "getOptimalTopK query userTopK =
     (if userTopK_accepted userTopK then the userTopK
      else Num (classifyTopK (length query) (hasTechnicalTerms query)
                  (hasComplexWords query) (hasMultipleQuestions query)))"


section \<open>The manifest table and the recovery scripts\<close>

text \<open>
  One row of the table \<^verbatim>\<open>bulk_files\<close>, with the columns the scripts read and write:
  \<^verbatim>\<open>path\<close>, \<^verbatim>\<open>status\<close>, \<^verbatim>\<open>chunks_count\<close>, \<^verbatim>\<open>error\<close>, \<^verbatim>\<open>updated_at\<close>.
  The status is stored as text. \<open>None\<close> is SQL's \<^verbatim>\<open>NULL\<close>.
\<close>

record bulk_file =
  path :: string
  status :: string
  chunks_count :: "int option"
  error :: "string option"
  updated_at :: string

subsection \<open>The aggregates of the status script\<close>

text \<open>\<^verbatim>\<open>SUM(x)\<close> skips \<^verbatim>\<open>NULL\<close> and is \<^verbatim>\<open>NULL\<close> when nothing is left to add.\<close>

definition sql_sum :: "int option list \<Rightarrow> int option" where
  "sql_sum vs =
     (case List.map_filter (\<lambda>v. v) vs of
        [] \<Rightarrow> None
      | x # xs \<Rightarrow> Some (sum_list (x # xs)))"

text \<open>\<^verbatim>\<open>CASE WHEN c THEN 1 ELSE 0 END\<close>\<close>

definition case_when :: "bool \<Rightarrow> int option" where
  "case_when c = Some (if c then 1 else 0)"

text \<open>\<^verbatim>\<open>v || 0\<close> on a number or \<^verbatim>\<open>null\<close>\<close>

definition or_zero :: "int option \<Rightarrow> int" where
  "or_zero v = (case v of None \<Rightarrow> 0 | Some n \<Rightarrow> if n = 0 then 0 else n)"

record status_summary =
  total :: int
  completed :: int
  errors :: int
  pending :: int
  total_chunks :: int

text \<open>
  The overall statistics \<^verbatim>\<open>checkStatus\<close> selects and prints. The string literals of
  this query are written in single quotes.
\<close>

definition checkStatus :: "bulk_file list \<Rightarrow> status_summary" where
  "checkStatus rows =
     \<lparr> total = or_zero (Some (int (length rows))),
       completed = or_zero (sql_sum (map (\<lambda>r. case_when (status r = ''completed'')) rows)),
       errors = or_zero (sql_sum (map (\<lambda>r. case_when (status r = ''error'')) rows)),
       pending = or_zero (sql_sum (map (\<lambda>r. case_when (status r \<in> {''queued'', ''processing''})) rows)),
       total_chunks = or_zero (sql_sum (map chunks_count rows)) \<rparr>"

text \<open>\<^verbatim>\<open>SELECT status, COUNT(*) FROM bulk_files GROUP BY status\<close>, as a set of rows.\<close>

definition statusBreakdown :: "bulk_file list \<Rightarrow> (string \<times> nat) set" where
  "statusBreakdown rows =
     (\<lambda>s. (s, length (filter (\<lambda>r. status r = s) rows))) ` set (map status rows)"

subsection \<open>The reset script\<close>

text \<open>
  \<^verbatim>\<open>clearErrors\<close> writes its two conditions as \<^verbatim>\<open>status = "error"\<close>, in double
  quotes. SQLite reads a double-quoted token as an identifier whenever it names a column
  in scope, and \<^verbatim>\<open>bulk_files\<close> has a column \<^verbatim>\<open>error\<close>: the condition compares the
  status of a row with the \<^emph>\<open>error text of the same row\<close>. A comparison with
  \<^verbatim>\<open>NULL\<close> is not true.
\<close>

definition status_eq_error_column :: "bulk_file \<Rightarrow> bool" where
  "status_eq_error_column r = (case error r of None \<Rightarrow> False | Some e \<Rightarrow> status r = e)"

text \<open>
  \<^verbatim>\<open>"queued"\<close> names no column. Whether such a token is then taken as the string
  \<^verbatim>\<open>'queued'\<close> or rejected when the statement is prepared is a build option of the
  SQLite library (\<^verbatim>\<open>SQLITE_DQS\<close>), the parameter \<open>dqs\<close> below. A rejected statement
  throws, and the script catches and prints the error.
\<close>

datatype clear_outcome = NoErrorsToClear | Reset nat | PrepareFailed

definition clearErrors :: "bool \<Rightarrow> bulk_file list \<Rightarrow> bulk_file list \<times> clear_outcome" where
  "clearErrors dqs rows =
     (let errorCount = length (filter status_eq_error_column rows) in
      if errorCount = 0 then (rows, NoErrorsToClear)
      else if \<not> dqs then (rows, PrepareFailed)
      else (map (\<lambda>r. if status_eq_error_column r
                      then r\<lparr>status := ''queued'', error := None\<rparr> else r) rows,
            Reset (length (filter status_eq_error_column rows))))"

section \<open>The RAG service\<close>

subsection \<open>Strings and messages\<close>

text \<open>\<^verbatim>\<open>s.trim()\<close>\<close>

definition js_trim :: "string \<Rightarrow> string" where
  "js_trim s = rev (dropWhile is_space (rev (dropWhile is_space s)))"

text \<open>\<^verbatim>\<open>xs.join(sep)\<close>\<close>

fun js_join :: "string \<Rightarrow> string list \<Rightarrow> string" where
  "js_join sep [] = []"
| "js_join sep [x] = x"
| "js_join sep (x # y # ys) = x @ sep @ js_join sep (y # ys)"

text \<open>The decimal digits of a number, as a template literal prints it.\<close>

fun show_nat :: "nat \<Rightarrow> string" where
  "show_nat n =
     (if n < 10 then [char_of (48 + n)] else show_nat (n div 10) @ [char_of (48 + n mod 10)])"

declare show_nat.simps [simp del]

fun seqs :: "regex list \<Rightarrow> regex" where
  "seqs [] = Lit []"
| "seqs [r] = r"
| "seqs (r # rs) = Seq r (seqs rs)"

subsection \<open>Documents, collaborators and state\<close>

text \<open>
  A document is its text and its metadata. The collaborators are the libraries the
  service calls: the PDF and DOCX parsers (the text they return may be missing), the
  decoding of a buffer as UTF-8, the text splitter, and the vector store's
  \<^verbatim>\<open>addDocuments\<close>. \<open>Inl msg\<close> is an exception with that message. A failed
  \<^verbatim>\<open>addDocuments\<close> returns the message together with the store as the failure left it.
\<close>

record document =
  pageContent :: string
  metadata :: "(string \<times> string) list"

record upload =
  originalname :: string
  mimetype :: string
  buffer :: string

record 's services =
  pdfParse :: "string \<Rightarrow> string + string option"
  extractRawText :: "string \<Rightarrow> string + string option"
  toStringUtf8 :: "string \<Rightarrow> string"
  splitDocuments :: "document list \<Rightarrow> string + document list"
  addDocuments :: "'s \<Rightarrow> document list \<Rightarrow> string option \<times> 's"

text \<open>
  What a call leaves behind: the vector store, and the messages sent through
  \<^verbatim>\<open>emitProgress\<close>, \<^verbatim>\<open>emitDone\<close> and the logger, oldest first. All messages of one
  call carry the same operation id, which the model leaves out.
\<close>

datatype event =
    Progress string
  | BatchProgress js_number js_number nat
  | Done nat "string list"
  | LogInfo string
  | LogError string

record 's rag_state =
  store :: 's
  events :: "event list"

definition emit :: "event \<Rightarrow> 's rag_state \<Rightarrow> 's rag_state" where
  "emit e st = st\<lparr>events := events st @ [e]\<rparr>"

subsection \<open>Text extraction\<close>

definition digit2 :: "regex list" where
  "digit2 = [Class is_digit, Class is_digit]"

definition vttTimestamp :: regex where
  "vttTimestamp =
     seqs ([Bol] @ digit2 @ [Lit '':''] @ digit2 @ [Lit '':''] @ digit2 @ [Lit ''.''] @
           digit2 @ [Class is_digit])"

definition srtTimestamp :: regex where
  "srtTimestamp =
     seqs ([Bol] @ digit2 @ [Lit '':''] @ digit2 @ [Lit '':''] @ digit2 @ [Lit '',''] @
           digit2 @ [Class is_digit])"

definition sequenceNumber :: regex where
  "sequenceNumber = seqs [Bol, Plus is_digit, Eol]"

definition processSubtitleContent :: "string \<Rightarrow> string \<Rightarrow> bool \<Rightarrow> string" where
  "processSubtitleContent content fileType removeTimestamps =
     (let lines = map js_trim (js_split content [CHR 0x0A]);
          processedLines =
            (if fileType = ''vtt'' then
               (if removeTimestamps then
                  filter (\<lambda>line. line \<noteq> [] \<and> \<not> js_includes line ''-->'' \<and>
                            \<not> prefix ''WEBVTT'' line \<and>
                            \<not> regex_test False sequenceNumber line \<and>
                            \<not> regex_test False vttTimestamp line) lines
                else filter (\<lambda>line. line \<noteq> [] \<and> \<not> prefix ''WEBVTT'' line) lines)
             else if fileType = ''srt'' then
               (if removeTimestamps then
                  filter (\<lambda>line. line \<noteq> [] \<and> \<not> js_includes line ''-->'' \<and>
                            \<not> regex_test False sequenceNumber line \<and>
                            \<not> regex_test False srtTimestamp line) lines
                else filter (\<lambda>line. line \<noteq> []) lines)
             else [])
      in js_join [CHR 0x0A] processedLines)"

definition csvToText :: "string \<Rightarrow> string" where
  "csvToText csvText =
     js_join [CHR 0x0A]
       (map (\<lambda>line. js_join '' | ''
                (map (\<lambda>field. filter (\<lambda>c. c \<noteq> CHR 0x22) (js_trim field))
                   (js_split line '','')))
          (js_split csvText [CHR 0x0A]))"

definition or_empty :: "string option \<Rightarrow> string" where
  "or_empty t = (case t of None \<Rightarrow> [] | Some x \<Rightarrow> x)"

definition timestampNote :: "bool \<Rightarrow> string" where
  "timestampNote removeTimestamps =
     (if removeTimestamps then '' (removing timestamps)'' else '' (keeping timestamps)'')"

text \<open>
  The extraction step of \<^verbatim>\<open>processFile\<close>, by declared type and file name: the progress
  messages it sends, and the text, or the exception of a parser or of the final
  \<^verbatim>\<open>Unsupported file type\<close> branch.
\<close>

definition extractText :: "'s services \<Rightarrow> bool \<Rightarrow> upload \<Rightarrow> string list \<times> (string + string)" where
  "extractText svc removeTimestamps file =
     (if mimetype file = ''application/pdf'' then
        ([''Extracting text from PDF''], map_sum id or_empty (pdfParse svc (buffer file)))
      else if mimetype file =
                ''application/vnd.openxmlformats-officedocument.wordprocessingml.document'' then
        ([''Extracting text from DOCX''], map_sum id or_empty (extractRawText svc (buffer file)))
      else if mimetype file = ''text/plain'' \<or> suffix ''.txt'' (originalname file)
                \<or> suffix ''.md'' (originalname file) then
        ([''Reading text file''], Inr (toStringUtf8 svc (buffer file)))
      else if mimetype file = ''text/csv'' \<or> suffix ''.csv'' (originalname file) then
        ([''Processing CSV file''], Inr (csvToText (toStringUtf8 svc (buffer file))))
      else if suffix ''.vtt'' (originalname file) then
        ([''Processing VTT subtitle file'' @ timestampNote removeTimestamps],
         Inr (processSubtitleContent (toStringUtf8 svc (buffer file)) ''vtt'' removeTimestamps))
      else if suffix ''.srt'' (originalname file) then
        ([''Processing SRT subtitle file'' @ timestampNote removeTimestamps],
         Inr (processSubtitleContent (toStringUtf8 svc (buffer file)) ''srt'' removeTimestamps))
      else
        ([], Inl (''Unsupported file type: '' @ mimetype file @ '' ('' @ originalname file @ '')'')))"

text \<open>\<^verbatim>\<open>!textContent || !textContent.trim()\<close>\<close>

definition noContent :: "string \<Rightarrow> bool" where
  "noContent textContent = (textContent = [] \<or> js_trim textContent = [])"

subsection \<open>Uploading files\<close>

text \<open>
  The loop of \<^verbatim>\<open>processFile\<close> over the files, from index \<open>i\<close> on; \<open>n\<close> is the number of
  files of the call. It carries \<^verbatim>\<open>totalChunks\<close> and \<^verbatim>\<open>allSources\<close>. An exception
  leaves the loop at once, with the state reached so far.
\<close>

fun processFile_loop ::
  "'s services \<Rightarrow> bool \<Rightarrow> nat \<Rightarrow> nat \<Rightarrow> upload list \<Rightarrow> nat \<times> string list \<Rightarrow> 's rag_state
     \<Rightarrow> (string + nat \<times> string list) \<times> 's rag_state" where
  "processFile_loop svc removeTimestamps n i [] acc st = (Inr acc, st)"
| "processFile_loop svc removeTimestamps n i (file # rest) acc st =
     (let st1 = emit (Progress (''Processing file '' @ show_nat (i + 1) @ ''/'' @ show_nat n @
                        '': '' @ originalname file)) st;
          st2 = foldl (\<lambda>s m. emit (Progress m) s) st1 (fst (extractText svc removeTimestamps file))
      in case snd (extractText svc removeTimestamps file) of
           Inl e \<Rightarrow> (Inl e, st2)
         | Inr textContent \<Rightarrow>
             if noContent textContent then
               processFile_loop svc removeTimestamps n (i + 1) rest acc
                 (emit (Progress (''Warning: No extractable content found in '' @
                          originalname file)) st2)
             else
               (let st3 = emit (Progress (''Chunking content from '' @ originalname file)) st2
                in case splitDocuments svc
                          [\<lparr>pageContent = textContent,
                            metadata = [(''source'', originalname file)]\<rparr>] of
                     Inl e \<Rightarrow> (Inl e, st3)
                   | Inr chunks \<Rightarrow>
                       (let st4 = emit (Progress (''Storing '' @ show_nat (length chunks) @
                                          '' chunks from '' @ originalname file)) st3
                        in case addDocuments svc (store st4) chunks of
                             (Some e, s') \<Rightarrow> (Inl e, st4\<lparr>store := s'\<rparr>)
                           | (None, s') \<Rightarrow>
                               processFile_loop svc removeTimestamps n (i + 1) rest
                                 (fst acc + length chunks, snd acc @ [originalname file])
                                 (st4\<lparr>store := s'\<rparr>))))"

record process_result =
  chunksAdded :: nat
  sources :: "string list"

definition noTextError :: string where
  "noTextError = ''No extractable text content found in any of the uploaded files''"

text \<open>The \<^verbatim>\<open>catch\<close> block: log, report, throw again.\<close>

definition rethrow :: "string \<Rightarrow> string \<Rightarrow> 's rag_state \<Rightarrow> (string + 'a) \<times> 's rag_state" where
  "rethrow logPrefix e st =
     (Inl e, emit (Progress (''Error: '' @ e)) (emit (LogError (logPrefix @ e)) st))"

text \<open>
  \<^verbatim>\<open>processFile(files, opId, removeTimestamps)\<close>; a single file is passed as a list of
  one. \<open>Inl msg\<close> is the exception the call throws.
\<close>

definition processFile ::
  "'s services \<Rightarrow> upload list \<Rightarrow> bool \<Rightarrow> 's rag_state \<Rightarrow> (string + process_result) \<times> 's rag_state" where
  "processFile svc files removeTimestamps st =
     (case processFile_loop svc removeTimestamps (length files) 0 files (0, []) st of
        (Inl e, st') \<Rightarrow> rethrow ''Error processing files: '' e st'
      | (Inr (totalChunks, allSources), st') \<Rightarrow>
          if totalChunks = 0 then rethrow ''Error processing files: '' noTextError st'
          else
            (Inr \<lparr>chunksAdded = totalChunks, sources = allSources\<rparr>,
             emit (Done totalChunks allSources)
               (emit (LogInfo (''Successfully processed and stored content from '' @
                        show_nat (length files) @ '' files'')) st')))"

subsection \<open>Bulk processing\<close>

text \<open>\<^verbatim>\<open>xs.slice(start, end)\<close>, with negative indices counted from the end.\<close>

definition js_slice :: "'a list \<Rightarrow> int \<Rightarrow> int \<Rightarrow> 'a list" where
  "js_slice xs start end =
     (let len = int (length xs);
          k = (if start < 0 then max (len + start) 0 else min start len);
          final = (if end < 0 then max (len + end) 0 else min end len)
      in take (nat (final - k)) (drop (nat k) xs))"

text \<open>
  What \<^verbatim>\<open>process.env.BULK_EMBED_BATCH\<close> holds: nothing (unset or empty), text that
  denotes an integer, or text that \<^verbatim>\<open>Number\<close> maps to NaN. Text that denotes a
  fraction or an infinity is not modelled.
\<close>

datatype bulk_embed_batch = Unset | Integer int | NoNumber

text \<open>
  \<^verbatim>\<open>Number(process.env.BULK_EMBED_BATCH || '128')\<close>; in the numbers of the loop
  \<open>None\<close> is NaN.
\<close>

definition batchSizeOf :: "bulk_embed_batch \<Rightarrow> int option" where
  "batchSizeOf env = (case env of Unset \<Rightarrow> Some 128 | Integer n \<Rightarrow> Some n | NoNumber \<Rightarrow> None)"

text \<open>\<^verbatim>\<open>i < documents.length\<close>, \<^verbatim>\<open>i + batchSize\<close> and the index a NaN stands for in \<^verbatim>\<open>slice\<close>.\<close>

definition js_less_length :: "int option \<Rightarrow> nat \<Rightarrow> bool" where
  "js_less_length i len = (case i of None \<Rightarrow> False | Some k \<Rightarrow> k < int len)"

definition js_plus :: "int option \<Rightarrow> int option \<Rightarrow> int option" where
  "js_plus i b = (case (i, b) of (Some k, Some n) \<Rightarrow> Some (k + n) | _ \<Rightarrow> None)"

definition to_index :: "int option \<Rightarrow> int" where
  "to_index i = (case i of None \<Rightarrow> 0 | Some k \<Rightarrow> k)"

text \<open>
  The batch counters of the progress message, \<^verbatim>\<open>Math.floor(i / batchSize) + 1\<close> and
  \<^verbatim>\<open>Math.ceil(documents.length / batchSize)\<close>.
\<close>

definition currentBatch :: "int option \<Rightarrow> int option \<Rightarrow> js_number" where
  "currentBatch i batchSize =
     (case (i, batchSize) of
        (Some k, Some n) \<Rightarrow>
          if n = 0 then (if k = 0 then NaN else if 0 < k then PosInf else NegInf)
          else Num (of_int (k div n) + 1)
      | _ \<Rightarrow> NaN)"

definition totalBatches :: "nat \<Rightarrow> int option \<Rightarrow> js_number" where
  "totalBatches len batchSize =
     (case batchSize of
        Some n \<Rightarrow>
          if n = 0 then (if len = 0 then NaN else PosInf)
          else Num (of_int (- ((- int len) div n)))
      | None \<Rightarrow> NaN)"

text \<open>
  The loop of \<^verbatim>\<open>processBulkDocuments\<close>. Nothing in the source makes the step positive,
  so the loop may run forever: the result \<open>None\<close> is a call that does not return.
\<close>

partial_function (option) processBulk_loop ::
  "'s services \<Rightarrow> int option \<Rightarrow> document list \<Rightarrow> int option \<Rightarrow> nat \<Rightarrow> 's rag_state
     \<Rightarrow> ((string + nat) \<times> 's rag_state) option" where
  "processBulk_loop svc batchSize documents i totalChunks st =
     (if js_less_length i (length documents) then
        (case splitDocuments svc
                (js_slice documents (to_index i) (to_index (js_plus i batchSize))) of
           Inl e \<Rightarrow> Some (Inl e, st)
         | Inr chunks \<Rightarrow>
             (case addDocuments svc (store st) chunks of
                (Some e, s') \<Rightarrow> Some (Inl e, st\<lparr>store := s'\<rparr>)
              | (None, s') \<Rightarrow>
                  processBulk_loop svc batchSize documents (js_plus i batchSize)
                    (totalChunks + length chunks)
                    (emit (BatchProgress (currentBatch i batchSize)
                             (totalBatches (length documents) batchSize)
                             (totalChunks + length chunks))
                       (st\<lparr>store := s'\<rparr>))))
      else Some (Inr totalChunks, st))"

text \<open>
  \<^verbatim>\<open>processBulkDocuments(documents, opId)\<close>: \<open>Inr n\<close> is the returned
  \<^verbatim>\<open>chunksAdded\<close>, \<open>Inl msg\<close> the exception logged and thrown again.
\<close>

definition processBulkDocuments ::
  "'s services \<Rightarrow> bulk_embed_batch \<Rightarrow> document list \<Rightarrow> 's rag_state
     \<Rightarrow> ((string + nat) \<times> 's rag_state) option" where
  "processBulkDocuments svc env documents st =
     (case processBulk_loop svc (batchSizeOf env) documents (Some 0) 0
             (emit (LogInfo (''Processing '' @ show_nat (length documents) @
                      '' documents in bulk'')) st) of
        None \<Rightarrow> None
      | Some (Inl e, st') \<Rightarrow>
          Some (Inl e, emit (LogError (''Error in bulk document processing: '' @ e)) st')
      | Some (Inr totalChunks, st') \<Rightarrow>
          Some (Inr totalChunks,
                emit (LogInfo (''Successfully processed '' @ show_nat totalChunks @
                        '' chunks from '' @ show_nat (length documents) @ '' documents'')) st'))"

text \<open>
  The claim's description, for comparison with the loop: the list cut into consecutive
  batches of \<open>n\<close> elements, the last one holding what is left.
\<close>

function batches :: "nat \<Rightarrow> 'a list \<Rightarrow> 'a list list" where
  "batches n xs = (if n = 0 \<or> xs = [] then [] else take n xs # batches n (drop n xs))"
  by pat_completeness auto
termination
  by (relation "measure (\<lambda>(n, xs). length xs)") auto

declare batches.simps [simp del]

text \<open>
  Splitting and storing one batch after the other, adding up the numbers of chunks; the
  first failure ends the run.
\<close>

fun run_batches :: "'s services \<Rightarrow> document list list \<Rightarrow> nat \<Rightarrow> 's \<Rightarrow> (string + nat) \<times> 's" where
  "run_batches svc [] tc s = (Inr tc, s)"
| "run_batches svc (b # bs) tc s =
     (case splitDocuments svc b of
        Inl e \<Rightarrow> (Inl e, s)
      | Inr chunks \<Rightarrow>
          (case addDocuments svc s chunks of
             (Some e, s') \<Rightarrow> (Inl e, s')
           | (None, s') \<Rightarrow> run_batches svc bs (tc + length chunks) s'))"

subsection \<open>Collection statistics\<close>

text \<open>
  The estimate of \<^verbatim>\<open>getCollectionStats\<close> is computed in binary64 arithmetic. A
  non-negative double is written as a fraction of two integers; \<open>fl a b\<close> is the double
  nearest to \<open>a / b\<close>, ties going to the even mantissa of 53 bits. Values below the normal
  range and above the largest double are not reached by the sizes of a collection and are
  left out.
\<close>

datatype js_double = Finite int int | Infinite | NotANumber

text \<open>The number of binary digits of a positive integer.\<close>

function bit_length :: "int \<Rightarrow> nat" where
  "bit_length n = (if n \<le> 0 then 0 else Suc (bit_length (n div 2)))"
  by pat_completeness auto
termination
  by (relation "measure nat") auto

declare bit_length.simps [simp del]

text \<open>The integer nearest to \<open>a / b\<close>, a tie going to the even one.\<close>

definition round_half_even :: "int \<Rightarrow> int \<Rightarrow> int" where
  "round_half_even a b =
     (let f = a div b; r = a mod b
      in if 2 * r < b then f else if b < 2 * r then f + 1 else if even f then f else f + 1)"

text \<open>The exponent \<open>e\<close> with \<open>2 ^ e \<le> a / b < 2 ^ (e + 1)\<close>, for positive \<open>a\<close> and \<open>b\<close>.\<close>

definition binary_exponent :: "int \<Rightarrow> int \<Rightarrow> int" where
  "binary_exponent a b =
     (if b \<le> a then int (bit_length (a div b)) - 1
      else - int (bit_length ((b + a - 1) div a - 1)))"

definition fl :: "int \<Rightarrow> int \<Rightarrow> js_double" where
  "fl a b =
     (if a = 0 then Finite 0 1
      else
        (let e = binary_exponent a b
         in if e \<le> 52
            then Finite (round_half_even (a * 2 ^ nat (52 - e)) b) (2 ^ nat (52 - e))
            else Finite (round_half_even a (b * 2 ^ nat (e - 52)) * 2 ^ nat (e - 52)) 1))"

text \<open>\<^verbatim>\<open>t / n\<close>, \<^verbatim>\<open>u * q\<close> and \<^verbatim>\<open>Math.round(v)\<close> on non-negative numbers.\<close>

definition dbl_div :: "nat \<Rightarrow> nat \<Rightarrow> js_double" where
  "dbl_div t n = (if n = 0 then (if t = 0 then NotANumber else Infinite) else fl (int t) (int n))"

definition dbl_mul :: "nat \<Rightarrow> js_double \<Rightarrow> js_double" where
  "dbl_mul u q =
     (case q of
        Finite p d \<Rightarrow> fl (int u * p) d
      | Infinite \<Rightarrow> if u = 0 then NotANumber else Infinite
      | NotANumber \<Rightarrow> NotANumber)"

definition math_round :: "js_double \<Rightarrow> js_number" where
  "math_round v =
     (case v of
        Finite p d \<Rightarrow> Num (of_int ((2 * p + d) div (2 * d)))
      | Infinite \<Rightarrow> PosInf
      | NotANumber \<Rightarrow> NaN)"

text \<open>
  A point of the collection as the statistics read it: \<open>source\<close> is
  \<^verbatim>\<open>payload.metadata.source\<close>, \<open>None\<close> when the payload, its metadata or the source is
  missing. The client is the vector store's: the names of the collections, the
  \<^verbatim>\<open>vectors_count\<close> of a collection (it may be missing), and one page of
  \<^verbatim>\<open>scroll\<close> for a limit (its \<^verbatim>\<open>points\<close> may be missing); \<open>Inl msg\<close> is an exception.
\<close>

record point =
  point_id :: string
  source :: "string option"

record qdrant_client =
  getCollections :: "string + string list"
  getCollection :: "string \<Rightarrow> string + nat option"
  scroll :: "string \<Rightarrow> nat \<Rightarrow> string + point list option"

record collection_stats =
  collectionExists :: bool
  totalVectors :: nat
  uniqueSources :: js_number
  totalChunks :: nat
  sampleSize :: "nat option"

datatype stats_response = Unavailable string | Stats collection_stats

text \<open>The set of the sources of the sample that are present and not empty.\<close>

definition uniqueSourcesOf :: "point list \<Rightarrow> string list" where
  "uniqueSourcesOf ps =
     remdups (List.map_filter
                (\<lambda>p. case source p of None \<Rightarrow> None | Some s \<Rightarrow> if s = [] then None else Some s) ps)"

definition emptyStats :: "bool \<Rightarrow> collection_stats" where
  "emptyStats ex =
     \<lparr>collectionExists = ex, totalVectors = 0, uniqueSources = Num 0, totalChunks = 0,
      sampleSize = None\<rparr>"

text \<open>
  \<^verbatim>\<open>getCollectionStats()\<close>: \<open>Inr (Unavailable msg)\<close> is the answer with
  \<^verbatim>\<open>success: false\<close>, \<open>Inl msg\<close> an exception thrown again by the outer handler.
\<close>

definition getCollectionStats :: "qdrant_client \<Rightarrow> string \<Rightarrow> string + stats_response" where
  "getCollectionStats client collectionName =
     (case getCollections client of
        Inl e \<Rightarrow> Inr (Unavailable (''Could not check collection status: '' @ e))
      | Inr names \<Rightarrow>
          if collectionName \<notin> set names then Inr (Stats (emptyStats False))
          else
            (case getCollection client collectionName of
               Inl e \<Rightarrow> Inr (Unavailable (''Could not get collection info: '' @ e))
             | Inr vectors_count \<Rightarrow>
                 (let totalVectors = (case vectors_count of None \<Rightarrow> 0 | Some n \<Rightarrow> n) in
                  if totalVectors = 0 then Inr (Stats (emptyStats True))
                  else
                    (case scroll client collectionName (min 1000 totalVectors) of
                       Inl e \<Rightarrow> Inl e
                     | Inr samplePoints \<Rightarrow>
                         (let uniqueSources =
                                uniqueSourcesOf (case samplePoints of None \<Rightarrow> [] | Some ps \<Rightarrow> ps)
                          in if totalVectors > 1000 then
                               (case samplePoints of
                                  None \<Rightarrow> Inl (''Cannot read properties of undefined (reading '' @ [CHR 0x27] @ ''length'' @ [CHR 0x27] @ '')'')
                                | Some ps \<Rightarrow>
                                    Inr (Stats
                                      \<lparr>collectionExists = True, totalVectors = totalVectors,
                                       uniqueSources =
                                         math_round (dbl_mul (length uniqueSources)
                                                       (dbl_div totalVectors (length ps))),
                                       totalChunks = totalVectors,
                                       sampleSize = Some (length ps)\<rparr>))
                             else
                               Inr (Stats
                                 \<lparr>collectionExists = True, totalVectors = totalVectors,
                                  uniqueSources = Num (real (length uniqueSources)),
                                  totalChunks = totalVectors,
                                  sampleSize = Some (case samplePoints of None \<Rightarrow> 0
                                                     | Some ps \<Rightarrow> length ps)\<rparr>))))))"

text \<open>
  Handing chunk lists to the store one after the other, as the loop does with the chunks
  of each batch: \<^verbatim>\<open>addDocuments\<close> receives the chunks and nothing else.
\<close>

fun store_chunks :: "'s services \<Rightarrow> document list list \<Rightarrow> nat \<Rightarrow> 's \<Rightarrow> (string + nat) \<times> 's" where
  "store_chunks svc [] tc s = (Inr tc, s)"
| "store_chunks svc (chunks # rest) tc s =
     (case addDocuments svc s chunks of
        (Some e, s') \<Rightarrow> (Inl e, s')
      | (None, s') \<Rightarrow> store_chunks svc rest (tc + length chunks) s')"

section \<open>Observations and concrete collaborators\<close>

text \<open>The value or exception of a call together with the vector store it leaves.\<close>

definition obs :: "'r \<times> 's rag_state \<Rightarrow> 'r \<times> 's" where
  "obs r = (fst r, store (snd r))"

text \<open>
  Collaborators for the concrete runs below: the store is the list of the chunks added so
  far, the splitter returns every document as one chunk, a buffer is its own text, and
  the PDF parser rejects the buffer \<^verbatim>\<open>corrupt\<close>.
\<close>

definition plain_services :: "document list services" where
  "plain_services =
     \<lparr>pdfParse = (\<lambda>b. if b = ''corrupt'' then Inl ''Invalid PDF structure'' else Inr (Some b)),
      extractRawText = (\<lambda>b. Inr (Some b)),
      toStringUtf8 = (\<lambda>b. b),
      splitDocuments = (\<lambda>ds. Inr ds),
      addDocuments = (\<lambda>s ds. (None, s @ ds))\<rparr>"

text \<open>
  The same collaborators with a splitter that joins the texts of a batch into one chunk,
  so that the number of chunks is the number of batches.
\<close>

definition joining_services :: "document list services" where
  "joining_services =
     plain_services\<lparr>splitDocuments :=
       (\<lambda>ds. Inr [\<lparr>pageContent = concat (map pageContent ds), metadata = []\<rparr>])\<rparr>"

definition empty_state :: "document list rag_state" where
  "empty_state = \<lparr>store = [], events = []\<rparr>"

text \<open>
  A store for the concrete runs: one collection \<^verbatim>\<open>documents\<close> that reports \<open>count\<close>
  vectors and serves the first points of \<open>pts\<close>.
\<close>

definition sample_client :: "nat \<Rightarrow> point list \<Rightarrow> qdrant_client" where
  "sample_client count pts =
     \<lparr>getCollections = Inr [''documents''],
      getCollection = (\<lambda>c. Inr (Some count)),
      scroll = (\<lambda>c limit. Inr (Some (take limit pts)))\<rparr>"


section \<open>Properties\<close>

subsection \<open>Retrieval depth\<close>

lemma userTopK_accepted_iff:
  "userTopK_accepted u \<longleftrightarrow> (\<exists>k. u = Some (Num k) \<and> 0 < k \<and> k \<le> 20)"
  by (auto simp: userTopK_accepted_def js_number_truthy_def js_gt_def js_le_def
           split: option.splits js_number.splits)

lemma classifyTopK_cases: "classifyTopK n t c m \<in> {3, 6, 8, 10}"
  by (simp add: classifyTopK_def)

lemma classifyTopK_le: "classifyTopK n t c m \<le> 20"
  by (simp add: classifyTopK_def)

text \<open>
  Claim C9. \<^verbatim>\<open>getOptimalTopK\<close> returns the user's override when the override is a number
  greater than 0 and at most 20. In every other case the override plays no part: the
  result is the one computed without an override, it is one of 3, 6, 8 and 10, and it is
  a function of the length of the query and of the three tests on its text. The returned
  depth is never above 20.
\<close>

theorem getOptimalTopK_override_or_heuristic:
  "(\<forall>k. userTopK = Some (Num k) \<and> 0 < k \<and> k \<le> 20 \<longrightarrow> getOptimalTopK query userTopK = Num k)
   \<and> ((\<nexists>k. userTopK = Some (Num k) \<and> 0 < k \<and> k \<le> 20) \<longrightarrow>
        getOptimalTopK query userTopK = getOptimalTopK query None
        \<and> getOptimalTopK query userTopK =
            Num (classifyTopK (length query) (hasTechnicalTerms query)
                   (hasComplexWords query) (hasMultipleQuestions query))
        \<and> getOptimalTopK query userTopK \<in> {Num 3, Num 6, Num 8, Num 10})
   \<and> (\<exists>r. getOptimalTopK query userTopK = Num r \<and> r \<le> 20)"
proof (intro conjI allI impI)
  fix k
  assume "userTopK = Some (Num k) \<and> 0 < k \<and> k \<le> 20"
  then show "getOptimalTopK query userTopK = Num k"
    by (auto simp: getOptimalTopK_def userTopK_accepted_iff)
next
  assume no: "\<nexists>k. userTopK = Some (Num k) \<and> 0 < k \<and> k \<le> 20"
  then have rej: "\<not> userTopK_accepted userTopK"
    by (simp add: userTopK_accepted_iff)
  have none: "\<not> userTopK_accepted None"
    by (simp add: userTopK_accepted_def)
  show "getOptimalTopK query userTopK = getOptimalTopK query None"
    using rej none by (simp add: getOptimalTopK_def)
  show "getOptimalTopK query userTopK =
          Num (classifyTopK (length query) (hasTechnicalTerms query)
                 (hasComplexWords query) (hasMultipleQuestions query))"
    using rej by (simp add: getOptimalTopK_def)
  show "getOptimalTopK query userTopK \<in> {Num 3, Num 6, Num 8, Num 10}"
    using rej classifyTopK_cases [of "length query" "hasTechnicalTerms query"
        "hasComplexWords query" "hasMultipleQuestions query"]
    by (auto simp: getOptimalTopK_def)
next
  show "\<exists>r. getOptimalTopK query userTopK = Num r \<and> r \<le> 20"
  proof (cases "userTopK_accepted userTopK")
    case True
    then obtain k where "userTopK = Some (Num k)" "k \<le> 20"
      by (auto simp: userTopK_accepted_iff)
    with True show ?thesis
      by (simp add: getOptimalTopK_def)
  next
    case False
    then show ?thesis
      by (simp add: getOptimalTopK_def classifyTopK_le)
  qed
qed

theorem getOptimalTopK_override_or_heuristic_witness:
  "getOptimalTopK ''What is Python?'' (Some (Num 5)) = Num 5
   \<and> getOptimalTopK ''What is Python?'' (Some (Num 25)) = getOptimalTopK ''What is Python?'' None
   \<and> getOptimalTopK ''What is Python?'' (Some (Num 25)) \<in> {Num 3, Num 6, Num 8, Num 10}"
proof -
  have h5: "Some (Num 5) = Some (Num 5) \<and> (0::real) < 5 \<and> (5::real) \<le> 20"
    by simp
  have h25: "\<nexists>k. Some (Num 25) = Some (Num k) \<and> 0 < k \<and> k \<le> 20"
    by simp
  from h5 getOptimalTopK_override_or_heuristic [of "Some (Num 5)" "''What is Python?''"]
  have a: "getOptimalTopK ''What is Python?'' (Some (Num 5)) = Num 5"
    by blast
  from h25 getOptimalTopK_override_or_heuristic [of "Some (Num 25)" "''What is Python?''"]
  have b: "getOptimalTopK ''What is Python?'' (Some (Num 25)) = getOptimalTopK ''What is Python?'' None
           \<and> getOptimalTopK ''What is Python?'' (Some (Num 25)) \<in> {Num 3, Num 6, Num 8, Num 10}"
    by blast
  from a b show ?thesis
    by blast
qed


subsection \<open>Source names\<close>

lemma cleanSourceName_missing:
  "cleanSourceName None = Some ''Unknown''" "cleanSourceName (Some []) = Some ''Unknown''"
  by (simp_all add: cleanSourceName_def)

lemma split_aux_nonempty: "split_aux sep acc s \<noteq> []"
  by (induction sep acc s rule: split_aux.induct) auto

lemma split_class_aux_nonempty: "split_class_aux p acc s \<noteq> []"
  by (induction s arbitrary: acc) auto

lemma js_includes_append_left: "js_includes s sep \<Longrightarrow> js_includes (xs @ s) sep"
  by (induction xs) auto

lemma js_includes_prefix: "prefix sep s \<Longrightarrow> js_includes s sep"
  by (cases s) auto

lemma split_aux_no_marker:
  "\<not> js_includes s sep \<Longrightarrow> split_aux sep acc s = [rev acc @ s]"
  by (induction s arbitrary: acc) auto

lemma prefix_before_marker:
  assumes "prefix sep ((c # pre) @ sep @ rest)" and "sep \<noteq> []"
  shows "prefix sep ((c # pre) @ butlast sep)"
proof -
  have "length sep \<le> length ((c # pre) @ butlast sep)"
    by simp
  moreover have "(c # pre) @ sep @ rest = ((c # pre) @ butlast sep) @ (last sep # rest)"
    using assms(2) by simp
  ultimately show ?thesis
    using assms(1) by (metis prefix_length_prefix prefixI)
qed

lemma split_aux_first_marker:
  assumes "sep \<noteq> []" and "\<not> js_includes (pre @ butlast sep) sep"
  shows "split_aux sep acc (pre @ sep @ rest) = (rev acc @ pre) # split_aux sep [] rest"
  using assms(2)
proof (induction pre arbitrary: acc)
  case Nil
  obtain c cs where sep: "sep = c # cs"
    using assms(1) by (cases sep) auto
  then show ?case
    by simp
next
  case (Cons c pre)
  have no: "\<not> prefix sep ((c # pre) @ sep @ rest)"
    using Cons.prems prefix_before_marker [OF _ assms(1)] js_includes_prefix by blast
  have "\<not> js_includes (pre @ butlast sep) sep"
    using Cons.prems by auto
  with no Cons.IH [of "c # acc"] show ?case
    by simp
qed

text \<open>
  With the marker in the path, the result is the piece that follows its first occurrence
  and ends where the marker occurs next, or at the end of the path.
\<close>

lemma cleanSourceName_marker:
  assumes "\<not> js_includes (pre @ butlast split11) split11"
  shows "cleanSourceName (Some (pre @ split11 @ rest)) = Some (hd (split_aux split11 [] rest))"
proof -
  have ne: "split11 \<noteq> []"
    by (simp add: split11_def)
  have inc: "js_includes (pre @ split11 @ rest) split11"
    by (intro js_includes_append_left js_includes_prefix) simp
  have "split_aux split11 [] rest \<noteq> []"
    by (rule split_aux_nonempty)
  then obtain x xs where "split_aux split11 [] rest = x # xs"
    by (cases "split_aux split11 [] rest") auto
  with ne inc split_aux_first_marker [OF ne assms, of "[]" rest] show ?thesis
    by (simp add: cleanSourceName_def js_split_def js_index_def)
qed

lemma cleanSourceName_single_marker:
  assumes "\<not> js_includes (pre @ butlast split11) split11" and "\<not> js_includes rest split11"
  shows "cleanSourceName (Some (pre @ split11 @ rest)) = Some rest"
  using cleanSourceName_marker [OF assms(1), of rest] split_aux_no_marker [OF assms(2), of "[]"]
  by simp

lemma takeWhile_rev_all:
  assumes "\<forall>x \<in> set s. \<not> p x"
  shows "rev (takeWhile (\<lambda>c. \<not> p c) (rev s)) = s"
proof -
  have "takeWhile (\<lambda>c. \<not> p c) (rev s) = rev s"
    using assms by simp
  then have "rev (takeWhile (\<lambda>c. \<not> p c) (rev s)) = rev (rev s)"
    by (rule arg_cong)
  then show ?thesis
    by (simp only: rev_rev_ident)
qed

lemma last_split_class_aux:
  "last (split_class_aux p acc s) =
     (if \<exists>c \<in> set s. p c then rev (takeWhile (\<lambda>c. \<not> p c) (rev s)) else rev acc @ s)"
proof (induction s arbitrary: acc)
  case Nil
  then show ?case by simp
next
  case (Cons c s)
  have nonempty: "split_class_aux p a s \<noteq> []" for a
    by (rule split_class_aux_nonempty)
  show ?case
  proof (cases "\<exists>d \<in> set s. p d")
    case True
    then have "takeWhile (\<lambda>c. \<not> p c) (rev s @ [c]) = takeWhile (\<lambda>c. \<not> p c) (rev s)"
      by (auto simp: takeWhile_append1)
    with True Cons.IH nonempty show ?thesis
      by auto
  next
    case False
    then have all: "rev (takeWhile (\<lambda>c. \<not> p c) (rev s)) = s"
      by (simp add: takeWhile_rev_all)
    have "takeWhile (\<lambda>c. \<not> p c) (rev s @ [c]) = rev s" if "p c"
      using that False by (simp add: takeWhile_tail)
    with False Cons.IH nonempty show ?thesis
      by auto
  qed
qed

text \<open>
  Without the marker, the result is what follows the last slash or backslash, and the
  whole path when nothing follows it.
\<close>

lemma cleanSourceName_basename:
  assumes "p \<noteq> []" and "\<not> js_includes p split11"
  shows "cleanSourceName (Some p) =
           Some (if rev (takeWhile (\<lambda>c. \<not> is_slash c) (rev p)) = [] then p
                 else rev (takeWhile (\<lambda>c. \<not> is_slash c) (rev p)))"
proof -
  have "split_class_aux is_slash [] p \<noteq> []"
    by (rule split_class_aux_nonempty)
  moreover have "last (split_class_aux is_slash [] p) =
      (if \<exists>c \<in> set p. is_slash c then rev (takeWhile (\<lambda>c. \<not> is_slash c) (rev p)) else p)"
    using last_split_class_aux [of is_slash "[]" p] by simp
  moreover have "rev (takeWhile (\<lambda>c. \<not> is_slash c) (rev p)) = p" if "\<not> (\<exists>c \<in> set p. is_slash c)"
    using that by (simp add: takeWhile_rev_all)
  ultimately show ?thesis
    using assms by (auto simp: cleanSourceName_def split_class_def js_pop_def)
qed

text \<open>
  Claim C10. The path below holds the marker \<^verbatim>\<open>split 11\\<close> twice. Everything after
  its first occurrence is \<^verbatim>\<open>part\split 11\Page_1.pdf\<close>; \<^verbatim>\<open>cleanSourceName\<close> returns
  the second piece of the split, \<^verbatim>\<open>part\\<close>, which stops where the marker occurs again.
\<close>

theorem cleanSourceName_stops_at_second_marker:
  "cleanSourceName
     (Some ((''C:'' @ [bslash] @ ''docs'' @ [bslash]) @ split11 @
            (''part'' @ [bslash] @ split11 @ ''Page_1.pdf'')))
     = Some (''part'' @ [bslash])
   \<and> \<not> js_includes ((''C:'' @ [bslash] @ ''docs'' @ [bslash]) @ butlast split11) split11
   \<and> Some (''part'' @ [bslash]) \<noteq> Some (''part'' @ [bslash] @ split11 @ ''Page_1.pdf'')"
  by code_simp

subsection \<open>The manifest\<close>

lemma sum_list_map_filter_id:
  "sum_list (List.map_filter (\<lambda>v. v) vs) = (\<Sum>v\<leftarrow>vs. case v of None \<Rightarrow> 0 | Some n \<Rightarrow> (n::int))"
  by (induction vs) (auto simp: List.map_filter_simps split: option.splits)

lemma or_zero_sql_sum:
  "or_zero (sql_sum vs) = (\<Sum>v\<leftarrow>vs. case v of None \<Rightarrow> 0 | Some n \<Rightarrow> n)"
proof -
  have "or_zero (sql_sum vs) = sum_list (List.map_filter (\<lambda>v. v) vs)"
    by (cases "List.map_filter (\<lambda>v. v) vs") (simp_all add: sql_sum_def or_zero_def)
  then show ?thesis
    by (simp add: sum_list_map_filter_id)
qed

lemma sum_list_indicator:
  "(\<Sum>r\<leftarrow>rows. if P r then 1 else 0) = int (length (filter P rows))"
  by (induction rows) simp_all

lemma count_case_when:
  "or_zero (sql_sum (map (\<lambda>r. case_when (P r)) rows)) = int (length (filter P rows))"
proof -
  have "or_zero (sql_sum (map (\<lambda>r. case_when (P r)) rows)) = (\<Sum>r\<leftarrow>rows. if P r then 1 else 0)"
    by (simp add: or_zero_sql_sum case_when_def comp_def)
  then show ?thesis
    by (simp add: sum_list_indicator)
qed

text \<open>
  Claim C7. The summary of the status script holds the number of rows, the number of rows
  in status \<^verbatim>\<open>completed\<close>, the number in status \<^verbatim>\<open>error\<close>, the number that are
  pending (status \<^verbatim>\<open>queued\<close> or \<^verbatim>\<open>processing\<close>), and the sum of
  \<^verbatim>\<open>chunks_count\<close> over all rows, a missing count adding nothing.
\<close>

theorem checkStatus_summary:
  "total (checkStatus rows) = int (length rows)
   \<and> completed (checkStatus rows) = int (length (filter (\<lambda>r. status r = ''completed'') rows))
   \<and> errors (checkStatus rows) = int (length (filter (\<lambda>r. status r = ''error'') rows))
   \<and> pending (checkStatus rows) =
       int (length (filter (\<lambda>r. status r = ''queued'' \<or> status r = ''processing'') rows))
   \<and> total_chunks (checkStatus rows) =
       (\<Sum>r\<leftarrow>rows. case chunks_count r of None \<Rightarrow> 0 | Some n \<Rightarrow> n)"
proof -
  have t: "total (checkStatus rows) = int (length rows)"
    by (simp add: checkStatus_def or_zero_def)
  have c: "completed (checkStatus rows) = int (length (filter (\<lambda>r. status r = ''completed'') rows))"
    by (simp add: checkStatus_def count_case_when)
  have e: "errors (checkStatus rows) = int (length (filter (\<lambda>r. status r = ''error'') rows))"
    by (simp add: checkStatus_def count_case_when)
  have "pending (checkStatus rows) =
          int (length (filter (\<lambda>r. status r \<in> {''queued'', ''processing''}) rows))"
    unfolding checkStatus_def by (simp only: status_summary.simps count_case_when)
  then have p: "pending (checkStatus rows) =
          int (length (filter (\<lambda>r. status r = ''queued'' \<or> status r = ''processing'') rows))"
    by simp
  have s: "total_chunks (checkStatus rows) =
          (\<Sum>r\<leftarrow>rows. case chunks_count r of None \<Rightarrow> 0 | Some n \<Rightarrow> n)"
    by (simp add: checkStatus_def or_zero_sql_sum comp_def)
  from t c e p s show ?thesis
    by blast
qed

lemma clearErrors_no_match:
  "\<forall>r \<in> set rows. error r \<noteq> Some (status r) \<Longrightarrow> clearErrors dqs rows = (rows, NoErrorsToClear)"
proof -
  assume "\<forall>r \<in> set rows. error r \<noteq> Some (status r)"
  then have "filter status_eq_error_column rows = []"
    by (auto simp: filter_empty_conv status_eq_error_column_def split: option.splits)
  then show ?thesis
    by (simp add: clearErrors_def)
qed

text \<open>
  Claim C4. A manifest whose only row is in status \<^verbatim>\<open>error\<close> with the message
  \<^verbatim>\<open>Unsupported file type\<close>: the reset script counts no row, since the status of the row
  is not equal to its error text, reports that there is nothing to clear and leaves the
  row in status \<^verbatim>\<open>error\<close> with its message, whatever the build option.
\<close>

theorem clearErrors_leaves_error_row:
  "clearErrors dqs
     [\<lparr>path = ''a.pdf'', status = ''error'', chunks_count = Some 0,
       error = Some ''Unsupported file type'', updated_at = ''2025-01-01 10:00:00''\<rparr>]
   = ([\<lparr>path = ''a.pdf'', status = ''error'', chunks_count = Some 0,
        error = Some ''Unsupported file type'', updated_at = ''2025-01-01 10:00:00''\<rparr>],
      NoErrorsToClear)"
  by (rule clearErrors_no_match) simp

text \<open>
  The \<^verbatim>\<open>UPDATE\<close> of the script assigns the status and the error text only: no run
  changes a time stamp.
\<close>

lemma clearErrors_updated_at:
  "map updated_at (fst (clearErrors dqs rows)) = map updated_at rows"
  by (simp add: clearErrors_def Let_def comp_def)

text \<open>
  On a build that rejects \<^verbatim>\<open>"queued"\<close> the script changes no row at all: either it
  counts nothing or the \<^verbatim>\<open>UPDATE\<close> fails when it is prepared.
\<close>

lemma clearErrors_strict_build:
  "fst (clearErrors False rows) = rows"
  by (simp add: clearErrors_def Let_def)

subsection \<open>Uploading files\<close>

lemma store_emit [simp]: "store (emit e st) = store st"
  by (simp add: emit_def)

lemma store_emit_all [simp]: "store (foldl (\<lambda>s m. emit (Progress m) s) st ms) = store st"
  by (induction ms arbitrary: st) simp_all

lemma events_emit: "events (emit e st) = events st @ [e]"
  by (simp add: emit_def)

lemma events_emit_all_mono:
  "e \<in> set (events st) \<Longrightarrow> e \<in> set (events (foldl (\<lambda>s m. emit (Progress m) s) st ms))"
  by (induction ms arbitrary: st) (simp_all add: events_emit)

lemma loop_obs_cong:
  "store st = store st' \<Longrightarrow>
   obs (processFile_loop svc rt n i fs acc st) = obs (processFile_loop svc rt n' i' fs acc st')"
proof (induction fs arbitrary: i i' acc st st')
  case Nil
  then show ?case by (simp add: obs_def)
next
  case (Cons f fs)
  show ?case
  proof (cases "snd (extractText svc rt f)")
    case (Inl e)
    with Cons.prems show ?thesis by (simp add: obs_def Let_def)
  next
    case (Inr t)
    show ?thesis
    proof (cases "noContent t")
      case True
      with Inr Cons.prems show ?thesis
        by (simp add: Let_def Cons.IH)
    next
      case False
      show ?thesis
      proof (cases "splitDocuments svc [\<lparr>pageContent = t, metadata = [(''source'', originalname f)]\<rparr>]")
        case (Inl e)
        with Inr False Cons.prems show ?thesis by (simp add: obs_def Let_def)
      next
        case chunks: (Inr chunks)
        obtain r s' where add: "addDocuments svc (store st) chunks = (r, s')"
          by (cases "addDocuments svc (store st) chunks")
        show ?thesis
        proof (cases r)
          case None
          with Inr False chunks add Cons.prems show ?thesis
            by (simp add: Let_def Cons.IH)
        next
          case (Some e)
          with Inr False chunks add Cons.prems show ?thesis
            by (simp add: obs_def Let_def)
        qed
      qed
    qed
  qed
qed

lemma loop_append:
  "processFile_loop svc rt n i (xs @ ys) acc st =
     (case processFile_loop svc rt n i xs acc st of
        (Inl e, st') \<Rightarrow> (Inl e, st')
      | (Inr acc', st') \<Rightarrow> processFile_loop svc rt n (i + length xs) ys acc' st')"
proof (induction xs arbitrary: i acc st)
  case Nil
  then show ?case by simp
next
  case (Cons f fs)
  show ?case
    by (simp add: Let_def Cons.IH split: sum.splits prod.splits option.splits)
qed

lemma loop_events_mono:
  "e \<in> set (events st) \<Longrightarrow> e \<in> set (events (snd (processFile_loop svc rt n i fs acc st)))"
proof (induction fs arbitrary: i acc st)
  case Nil
  then show ?case by simp
next
  case (Cons f fs)
  have "e \<in> set (events (foldl (\<lambda>s m. emit (Progress m) s) (emit x st) ms))" for x ms
    using Cons.prems by (simp add: events_emit_all_mono events_emit)
  then show ?case
    by (auto simp: Let_def events_emit intro!: Cons.IH split: sum.splits prod.splits option.splits)
qed

lemma processFile_obs:
  "obs (processFile svc files rt st) =
     (case fst (processFile_loop svc rt (length files) 0 files (0, []) st) of
        Inl e \<Rightarrow> Inl e
      | Inr (n, srcs) \<Rightarrow>
          if n = 0 then Inl noTextError
          else Inr \<lparr>chunksAdded = n, sources = srcs\<rparr>,
      store (snd (processFile_loop svc rt (length files) 0 files (0, []) st)))"
  by (simp add: processFile_def obs_def rethrow_def split: prod.splits sum.splits)

lemma processFile_obs_cong:
  assumes "obs (processFile_loop svc rt (length fs) 0 fs (0, []) st) =
           obs (processFile_loop svc rt (length gs) 0 gs (0, []) st')"
  shows "obs (processFile svc fs rt st) = obs (processFile svc gs rt st')"
proof -
  from assms have
    "fst (processFile_loop svc rt (length fs) 0 fs (0, []) st) =
     fst (processFile_loop svc rt (length gs) 0 gs (0, []) st')"
    "store (snd (processFile_loop svc rt (length fs) 0 fs (0, []) st)) =
     store (snd (processFile_loop svc rt (length gs) 0 gs (0, []) st'))"
    by (simp_all add: obs_def)
  then show ?thesis
    by (simp add: processFile_obs)
qed

lemma processFile_events_mono:
  "e \<in> set (events (snd (processFile_loop svc rt (length files) 0 files (0, []) st))) \<Longrightarrow>
   e \<in> set (events (snd (processFile svc files rt st)))"
  by (auto simp: processFile_def rethrow_def events_emit split: prod.splits sum.splits)

lemma loop_prefix_same:
  obtains r st1 st2 where
    "processFile_loop svc rt n i xs acc st = (r, st1)"
    "processFile_loop svc rt n' i xs acc st = (r, st2)"
    "store st1 = store st2"
proof -
  have "obs (processFile_loop svc rt n i xs acc st) = obs (processFile_loop svc rt n' i xs acc st)"
    by (rule loop_obs_cong) simp
  then show thesis
    by (cases "processFile_loop svc rt n i xs acc st"; cases "processFile_loop svc rt n' i xs acc st")
       (auto simp: obs_def intro: that)
qed

lemma loop_skip_blank:
  assumes "snd (extractText svc rt f) = Inr t" "noContent t"
  shows "obs (processFile_loop svc rt n i (xs @ f # ys) acc st) =
         obs (processFile_loop svc rt n' i (xs @ ys) acc st)"
proof -
  obtain r st1 st2 where
    l1: "processFile_loop svc rt n i xs acc st = (r, st1)" and
    l2: "processFile_loop svc rt n' i xs acc st = (r, st2)" and
    eq: "store st1 = store st2"
    by (rule loop_prefix_same)
  show ?thesis
  proof (cases r)
    case (Inl e)
    with eq l1 l2 show ?thesis
      by (simp add: loop_append obs_def)
  next
    case (Inr acc')
    have "obs (processFile_loop svc rt n (i + length xs) (f # ys) acc' st1) =
          obs (processFile_loop svc rt n' (i + length xs) ys acc' st2)"
      using assms eq by (simp add: Let_def loop_obs_cong)
    with Inr l1 l2 show ?thesis
      by (simp add: loop_append)
  qed
qed

lemma loop_stop_at_failure:
  assumes "snd (extractText svc rt f) = Inl e"
  shows "obs (processFile_loop svc rt n i (xs @ f # ys) acc st) =
         obs (processFile_loop svc rt n' i (xs @ [f]) acc st)"
    and "isl (fst (processFile_loop svc rt n i (xs @ f # ys) acc st))"
proof -
  obtain r st1 st2 where
    l1: "processFile_loop svc rt n i xs acc st = (r, st1)" and
    l2: "processFile_loop svc rt n' i xs acc st = (r, st2)" and
    eq: "store st1 = store st2"
    by (rule loop_prefix_same)
  show "obs (processFile_loop svc rt n i (xs @ f # ys) acc st) =
         obs (processFile_loop svc rt n' i (xs @ [f]) acc st)"
    using assms eq l1 l2 by (cases r) (simp_all add: loop_append obs_def Let_def)
  show "isl (fst (processFile_loop svc rt n i (xs @ f # ys) acc st))"
    using assms l1 by (cases r) (simp_all add: loop_append Let_def)
qed

lemma events_emit_all:
  "events (foldl (\<lambda>s m. emit (Progress m) s) st ms) = events st @ map Progress ms"
  by (induction ms arbitrary: st) (simp_all add: events_emit)

lemma emit_all_state:
  "foldl (\<lambda>s m. emit (Progress m) s) st ms = st\<lparr>events := events st @ map Progress ms\<rparr>"
proof (induction ms arbitrary: st)
  case Nil
  show ?case by simp
next
  case (Cons m ms)
  show ?case
    unfolding foldl_Cons Cons.IH by (simp add: emit_def)
qed

lemma processFile_store:
  "store (snd (processFile svc files rt st)) =
     store (snd (processFile_loop svc rt n 0 files (0, []) st))"
proof -
  have "obs (processFile_loop svc rt (length files) 0 files (0, []) st) =
        obs (processFile_loop svc rt n 0 files (0, []) st)"
    by (rule loop_obs_cong) simp
  then have "store (snd (processFile_loop svc rt (length files) 0 files (0, []) st)) =
             store (snd (processFile_loop svc rt n 0 files (0, []) st))"
    by (simp add: obs_def)
  moreover have "store (snd (processFile svc files rt st)) =
        store (snd (processFile_loop svc rt (length files) 0 files (0, []) st))"
    using processFile_obs [of svc files rt st] by (simp add: obs_def)
  ultimately show ?thesis
    by simp
qed

lemma processFile_after_failure:
  assumes "processFile_loop svc rt (length (xs @ ys)) 0 xs (0, []) st = (Inl e, st1)"
  shows "processFile svc (xs @ ys) rt st = rethrow ''Error processing files: '' e st1"
  using assms by (simp add: processFile_def loop_append del: length_append)

text \<open>
  Claim C2, as the code has it. A file whose extracted text is empty or white space only
  adds no chunk and no source and does not fail by itself: the call returns (or throws)
  what it does without the file and leaves the same store. When the files before it have
  gone through, the loop sends the warning for it as the step's last message and goes on
  with the counters and the store unchanged; when a file before it has failed, the call
  has ended there and the file is not looked at. The call as a whole still throws when no
  file has yielded a chunk, so a call with this file alone fails.
\<close>

theorem processFile_blank_file_skipped:
  assumes "snd (extractText svc rt f) = Inr t" and "noContent t"
  shows "fst (processFile svc (xs @ f # ys) rt st) = fst (processFile svc (xs @ ys) rt st)
    \<and> store (snd (processFile svc (xs @ f # ys) rt st)) = store (snd (processFile svc (xs @ ys) rt st))
    \<and> (\<forall>acc st1. processFile_loop svc rt (length (xs @ f # ys)) 0 xs (0, []) st = (Inr acc, st1) \<longrightarrow>
          processFile_loop svc rt (length (xs @ f # ys)) 0 (xs @ [f]) (0, []) st =
            (Inr acc,
             st1\<lparr>events := events st1 @
                   [Progress (''Processing file '' @ show_nat (length xs + 1) @ ''/'' @
                      show_nat (length (xs @ f # ys)) @ '': '' @ originalname f)] @
                   map Progress (fst (extractText svc rt f)) @
                   [Progress (''Warning: No extractable content found in '' @ originalname f)]\<rparr>)
          \<and> Progress (''Warning: No extractable content found in '' @ originalname f)
              \<in> set (events (snd (processFile svc (xs @ f # ys) rt st))))
    \<and> (\<forall>e st1. processFile_loop svc rt (length (xs @ f # ys)) 0 xs (0, []) st = (Inl e, st1) \<longrightarrow>
          processFile svc (xs @ f # ys) rt st =
            (Inl e, st1\<lparr>events := events st1 @
                      [LogError (''Error processing files: '' @ e), Progress (''Error: '' @ e)]\<rparr>))
    \<and> fst (processFile svc [f] rt st) = Inl noTextError"
proof -
  let ?n = "length (xs @ f # ys)"
  let ?w = "Progress (''Warning: No extractable content found in '' @ originalname f)"
  have skip: "obs (processFile_loop svc rt n 0 (xs @ f # ys) (0, []) st) =
              obs (processFile_loop svc rt n' 0 (xs @ ys) (0, []) st)" for n n' xs ys
    using assms by (rule loop_skip_blank)
  have "obs (processFile svc (xs @ f # ys) rt st) = obs (processFile svc (xs @ ys) rt st)"
    by (rule processFile_obs_cong) (rule skip)
  then have same: "fst (processFile svc (xs @ f # ys) rt st) = fst (processFile svc (xs @ ys) rt st)"
    "store (snd (processFile svc (xs @ f # ys) rt st)) = store (snd (processFile svc (xs @ ys) rt st))"
    by (simp_all add: obs_def)
  have reached: "processFile_loop svc rt ?n 0 (xs @ [f]) (0, []) st =
            (Inr acc,
             st1\<lparr>events := events st1 @
                   [Progress (''Processing file '' @ show_nat (length xs + 1) @ ''/'' @
                      show_nat ?n @ '': '' @ originalname f)] @
                   map Progress (fst (extractText svc rt f)) @ [?w]\<rparr>)
          \<and> ?w \<in> set (events (snd (processFile svc (xs @ f # ys) rt st)))"
    if xs: "processFile_loop svc rt ?n 0 xs (0, []) st = (Inr acc, st1)" for acc st1
  proof -
    let ?st2 = "emit ?w (foldl (\<lambda>s m. emit (Progress m) s)
                  (emit (Progress (''Processing file '' @ show_nat (length xs + 1) @ ''/'' @
                      show_nat ?n @ '': '' @ originalname f)) st1)
                  (fst (extractText svc rt f)))"
    have step: "processFile_loop svc rt ?n (length xs) (f # zs) acc st1 =
                processFile_loop svc rt ?n (length xs + 1) zs acc ?st2" for zs
      using assms by (simp add: Let_def del: length_append)
    have "processFile_loop svc rt ?n 0 (xs @ [f]) (0, []) st = (Inr acc, ?st2)"
      using xs step [of "[]"] by (simp add: loop_append del: length_append)
    moreover have "?st2 = st1\<lparr>events := events st1 @
                   [Progress (''Processing file '' @ show_nat (length xs + 1) @ ''/'' @
                      show_nat ?n @ '': '' @ originalname f)] @
                   map Progress (fst (extractText svc rt f)) @ [?w]\<rparr>"
      unfolding emit_all_state by (simp add: emit_def del: length_append)
    ultimately have exact: "processFile_loop svc rt ?n 0 (xs @ [f]) (0, []) st =
            (Inr acc,
             st1\<lparr>events := events st1 @
                   [Progress (''Processing file '' @ show_nat (length xs + 1) @ ''/'' @
                      show_nat ?n @ '': '' @ originalname f)] @
                   map Progress (fst (extractText svc rt f)) @ [?w]\<rparr>)"
      by (simp only:)
    have "?w \<in> set (events ?st2)"
      by (simp add: events_emit)
    then have "?w \<in> set (events (snd (processFile_loop svc rt ?n (length xs + 1) ys acc ?st2)))"
      by (rule loop_events_mono)
    then have "?w \<in> set (events (snd (processFile_loop svc rt ?n 0 (xs @ f # ys) (0, []) st)))"
      using xs step [of ys] by (simp add: loop_append del: length_append)
    then have "?w \<in> set (events (snd (processFile svc (xs @ f # ys) rt st)))"
      by (rule processFile_events_mono)
    with exact show ?thesis
      by (rule conjI)
  qed
  have failed: "processFile svc (xs @ f # ys) rt st =
            (Inl e, st1\<lparr>events := events st1 @
                      [LogError (''Error processing files: '' @ e), Progress (''Error: '' @ e)]\<rparr>)"
    if "processFile_loop svc rt ?n 0 xs (0, []) st = (Inl e, st1)" for e st1
    using processFile_after_failure [OF that] by (simp add: rethrow_def emit_def)
  have "obs (processFile svc ([] @ f # []) rt st) = obs (processFile svc ([] @ []) rt st)"
    by (rule processFile_obs_cong) (rule skip)
  then have alone: "fst (processFile svc [f] rt st) = Inl noTextError"
    by (simp add: obs_def processFile_def rethrow_def)
  from same reached failed alone show ?thesis
    by blast
qed

theorem processFile_blank_file_skipped_witness:
  "fst (processFile plain_services
          [\<lparr>originalname = ''a.txt'', mimetype = ''text/plain'', buffer = ''alpha''\<rparr>,
           \<lparr>originalname = ''empty.txt'', mimetype = ''text/plain'', buffer = ''  ''\<rparr>,
           \<lparr>originalname = ''b.txt'', mimetype = ''text/plain'', buffer = ''beta''\<rparr>]
          False empty_state)
   = fst (processFile plain_services
          [\<lparr>originalname = ''a.txt'', mimetype = ''text/plain'', buffer = ''alpha''\<rparr>,
           \<lparr>originalname = ''b.txt'', mimetype = ''text/plain'', buffer = ''beta''\<rparr>]
          False empty_state)
   \<and> Progress ''Warning: No extractable content found in empty.txt''
       \<in> set (events (snd (processFile plain_services
          [\<lparr>originalname = ''a.txt'', mimetype = ''text/plain'', buffer = ''alpha''\<rparr>,
           \<lparr>originalname = ''empty.txt'', mimetype = ''text/plain'', buffer = ''  ''\<rparr>,
           \<lparr>originalname = ''b.txt'', mimetype = ''text/plain'', buffer = ''beta''\<rparr>]
          False empty_state)))
   \<and> fst (processFile plain_services
          [\<lparr>originalname = ''empty.txt'', mimetype = ''text/plain'', buffer = ''  ''\<rparr>]
          False empty_state) = Inl noTextError"
proof -
  let ?a = "\<lparr>originalname = ''a.txt'', mimetype = ''text/plain'', buffer = ''alpha''\<rparr>"
  let ?f = "\<lparr>originalname = ''empty.txt'', mimetype = ''text/plain'', buffer = ''  ''\<rparr>"
  let ?b = "\<lparr>originalname = ''b.txt'', mimetype = ''text/plain'', buffer = ''beta''\<rparr>"
  have h1: "snd (extractText plain_services False ?f) = Inr ''  ''"
    by (simp add: extractText_def plain_services_def)
  have h2: "noContent ''  ''"
    by (simp add: noContent_def js_trim_def is_space_def code_def)
  have "\<exists>acc st1. processFile_loop plain_services False (length ([?a] @ ?f # [?b])) 0 [?a] (0, [])
          empty_state = (Inr acc, st1)"
    by (simp add: extractText_def plain_services_def noContent_def js_trim_def is_space_def
          code_def Let_def)
  then obtain acc st1 where
    before: "processFile_loop plain_services False (length ([?a] @ ?f # [?b])) 0 [?a] (0, [])
          empty_state = (Inr acc, st1)"
    by blast
  note skipped = processFile_blank_file_skipped [OF h1 h2, of "[?a]" "[?b]" empty_state]
  from skipped have same: "fst (processFile plain_services ([?a] @ ?f # [?b]) False empty_state)
      = fst (processFile plain_services ([?a] @ [?b]) False empty_state)"
    by (rule conjunct1)
  from skipped before
  have warn: "Progress (''Warning: No extractable content found in '' @ originalname ?f)
      \<in> set (events (snd (processFile plain_services ([?a] @ ?f # [?b]) False empty_state)))"
    by blast
  from skipped have alone: "fst (processFile plain_services [?f] False empty_state) = Inl noTextError"
    by blast
  from same warn alone show ?thesis
    by simp
qed

text \<open>
  Claim C2 as stated fails: a call whose only file holds white space throws.
\<close>

theorem processFile_blank_only_file_throws:
  "snd (extractText plain_services False
          \<lparr>originalname = ''empty.txt'', mimetype = ''text/plain'', buffer = ''  ''\<rparr>) = Inr ''  ''
   \<and> noContent ''  ''
   \<and> fst (processFile plain_services
          [\<lparr>originalname = ''empty.txt'', mimetype = ''text/plain'', buffer = ''  ''\<rparr>]
          False empty_state)
       = Inl ''No extractable text content found in any of the uploaded files''"
  by (simp add: extractText_def plain_services_def noContent_def js_trim_def is_space_def
        code_def processFile_def rethrow_def Let_def emit_def empty_state_def noTextError_def)

lemma loop_events_extend:
  fixes st :: "'s rag_state"
  shows "prefix (events st) (events (snd (processFile_loop svc rt n i fs acc st)))"
proof (induction fs arbitrary: i acc st)
  case Nil
  show ?case by simp
next
  case (Cons f fs)
  have p2: "prefix (events st) (events (foldl (\<lambda>s m. emit (Progress m) s) (emit x st) ms))"
    for x ms
    by (simp add: events_emit_all events_emit)
  have step: "prefix (events st) (events (snd (processFile_loop svc rt n j fs acc' st')))"
    if "prefix (events st) (events st')" for j acc' st'
    using that Cons.IH [of st' j acc'] by (rule prefix_order.trans)
  have grow: "prefix (events st) (events (emit x st'))"
    if "prefix (events st) (events st')" for x and st' :: "'s rag_state"
    using that by (simp add: events_emit)
  have keep: "prefix (events st) (events (st'\<lparr>store := s'\<rparr>))"
    if "prefix (events st) (events st')" for s' :: 's and st' :: "'s rag_state"
    using that by simp
  show ?case
    by (auto simp: Let_def simp del: foldl_Cons intro!: step grow keep p2
          split: sum.splits prod.splits option.splits)
qed

text \<open>
  Claim C3, as the code has it. The loop over the files stands inside one \<^verbatim>\<open>try\<close>
  block. A file whose extraction fails ends the call: the exception is logged, reported
  as a progress error and thrown again, these two messages being the last of the call, so
  the call returns no result. The files before it keep what they stored, the store being
  the one the call on them alone leaves; the files after it are never processed, the call
  ending as the same call without them. When the files before it have gone through, the
  exception is the failing file's own and nothing is sent between its extraction messages
  and the error; when one of them has failed, the call has ended there. When the failing
  file comes first, the store is untouched.
\<close>

theorem processFile_extraction_failure_aborts:
  assumes "snd (extractText svc rt f) = Inl e"
  shows "isl (fst (processFile svc (xs @ f # ys) rt st))
    \<and> fst (processFile svc (xs @ f # ys) rt st) = fst (processFile svc (xs @ [f]) rt st)
    \<and> store (snd (processFile svc (xs @ f # ys) rt st)) = store (snd (processFile svc (xs @ [f]) rt st))
    \<and> store (snd (processFile svc (xs @ f # ys) rt st)) = store (snd (processFile svc xs rt st))
    \<and> (\<exists>msg evs. fst (processFile svc (xs @ f # ys) rt st) = Inl msg
          \<and> events (snd (processFile svc (xs @ f # ys) rt st)) =
              events st @ evs @
              [LogError (''Error processing files: '' @ msg), Progress (''Error: '' @ msg)])
    \<and> (\<forall>acc st1. processFile_loop svc rt (length (xs @ f # ys)) 0 xs (0, []) st = (Inr acc, st1) \<longrightarrow>
          processFile svc (xs @ f # ys) rt st =
            (Inl e,
             st1\<lparr>events := events st1 @
                   [Progress (''Processing file '' @ show_nat (length xs + 1) @ ''/'' @
                      show_nat (length (xs @ f # ys)) @ '': '' @ originalname f)] @
                   map Progress (fst (extractText svc rt f)) @
                   [LogError (''Error processing files: '' @ e), Progress (''Error: '' @ e)]\<rparr>))
    \<and> (\<forall>e' st1. processFile_loop svc rt (length (xs @ f # ys)) 0 xs (0, []) st = (Inl e', st1) \<longrightarrow>
          processFile svc (xs @ f # ys) rt st =
            (Inl e', st1\<lparr>events := events st1 @
                      [LogError (''Error processing files: '' @ e'), Progress (''Error: '' @ e')]\<rparr>))
    \<and> fst (processFile svc (f # ys) rt st) = Inl e
    \<and> store (snd (processFile svc (f # ys) rt st)) = store st"
proof -
  let ?n = "length (xs @ f # ys)"
  have stop: "obs (processFile_loop svc rt n 0 (xs @ f # ys) (0, []) st) =
              obs (processFile_loop svc rt n' 0 (xs @ [f]) (0, []) st)" for n n'
    using assms by (rule loop_stop_at_failure)
  have failed: "isl (fst (processFile_loop svc rt n 0 (xs @ f # ys) (0, []) st))" for n
    using assms by (rule loop_stop_at_failure)
  have a: "isl (fst (processFile svc (xs @ f # ys) rt st))"
    using failed [of "length (xs @ f # ys)"]
    by (auto simp: processFile_def rethrow_def isl_def split: prod.splits sum.splits)
  have "obs (processFile svc (xs @ f # ys) rt st) = obs (processFile svc (xs @ [f]) rt st)"
    by (rule processFile_obs_cong) (rule stop)
  then have b: "fst (processFile svc (xs @ f # ys) rt st) = fst (processFile svc (xs @ [f]) rt st)"
    "store (snd (processFile svc (xs @ f # ys) rt st)) = store (snd (processFile svc (xs @ [f]) rt st))"
    by (simp_all add: obs_def)
  have c: "fst (processFile svc (f # ys) rt st) = Inl e"
    "store (snd (processFile svc (f # ys) rt st)) = store st"
    using assms by (simp_all add: processFile_def rethrow_def Let_def)
  have reached: "processFile svc (xs @ f # ys) rt st =
            (Inl e,
             st1\<lparr>events := events st1 @
                   [Progress (''Processing file '' @ show_nat (length xs + 1) @ ''/'' @
                      show_nat ?n @ '': '' @ originalname f)] @
                   map Progress (fst (extractText svc rt f)) @
                   [LogError (''Error processing files: '' @ e), Progress (''Error: '' @ e)]\<rparr>)"
    if xs: "processFile_loop svc rt ?n 0 xs (0, []) st = (Inr acc, st1)" for acc st1
  proof -
    let ?st2 = "foldl (\<lambda>s m. emit (Progress m) s)
                  (emit (Progress (''Processing file '' @ show_nat (length xs + 1) @ ''/'' @
                      show_nat ?n @ '': '' @ originalname f)) st1)
                  (fst (extractText svc rt f))"
    have "processFile_loop svc rt ?n (length xs) (f # ys) acc st1 = (Inl e, ?st2)"
      using assms by (simp add: Let_def del: length_append)
    with xs have "processFile_loop svc rt ?n 0 (xs @ f # ys) (0, []) st = (Inl e, ?st2)"
      by (simp add: loop_append del: length_append)
    then have "processFile svc (xs @ f # ys) rt st = rethrow ''Error processing files: '' e ?st2"
      by (simp add: processFile_def del: length_append)
    also have "\<dots> = (Inl e,
             st1\<lparr>events := events st1 @
                   [Progress (''Processing file '' @ show_nat (length xs + 1) @ ''/'' @
                      show_nat ?n @ '': '' @ originalname f)] @
                   map Progress (fst (extractText svc rt f)) @
                   [LogError (''Error processing files: '' @ e), Progress (''Error: '' @ e)]\<rparr>)"
      unfolding emit_all_state by (simp add: rethrow_def emit_def del: length_append)
    finally show ?thesis .
  qed
  have earlier: "processFile svc (xs @ f # ys) rt st =
            (Inl e', st1\<lparr>events := events st1 @
                      [LogError (''Error processing files: '' @ e'), Progress (''Error: '' @ e')]\<rparr>)"
    if "processFile_loop svc rt ?n 0 xs (0, []) st = (Inl e', st1)" for e' st1
    using processFile_after_failure [OF that] by (simp add: rethrow_def emit_def)
  obtain r st1 where xs: "processFile_loop svc rt ?n 0 xs (0, []) st = (r, st1)"
    by (cases "processFile_loop svc rt ?n 0 xs (0, []) st")
  have "prefix (events st) (events (snd (processFile_loop svc rt ?n 0 xs (0, []) st)))"
    by (rule loop_events_extend)
  with xs obtain evs1 where evs1: "events st1 = events st @ evs1"
    by (auto simp: prefix_def)
  have d: "store (snd (processFile svc (xs @ f # ys) rt st)) = store (snd (processFile svc xs rt st))"
  proof -
    have "store (snd (processFile svc xs rt st)) = store st1"
      using processFile_store [of svc xs rt st ?n] xs by simp
    moreover have "store (snd (processFile svc (xs @ f # ys) rt st)) = store st1"
    proof (cases r)
      case (Inl e')
      with xs earlier show ?thesis by simp
    next
      case (Inr acc)
      with xs reached show ?thesis by simp
    qed
    ultimately show ?thesis
      by simp
  qed
  have last: "\<exists>msg evs. fst (processFile svc (xs @ f # ys) rt st) = Inl msg
          \<and> events (snd (processFile svc (xs @ f # ys) rt st)) =
              events st @ evs @
              [LogError (''Error processing files: '' @ msg), Progress (''Error: '' @ msg)]"
  proof (cases r)
    case (Inl e')
    with xs have "processFile svc (xs @ f # ys) rt st =
            (Inl e', st1\<lparr>events := events st1 @
                      [LogError (''Error processing files: '' @ e'), Progress (''Error: '' @ e')]\<rparr>)"
      by (simp add: earlier)
    then have "fst (processFile svc (xs @ f # ys) rt st) = Inl e'
          \<and> events (snd (processFile svc (xs @ f # ys) rt st)) =
              events st @ evs1 @
              [LogError (''Error processing files: '' @ e'), Progress (''Error: '' @ e')]"
      by (simp add: evs1)
    then show ?thesis
      by blast
  next
    case (Inr acc)
    with xs have "processFile svc (xs @ f # ys) rt st =
            (Inl e,
             st1\<lparr>events := events st1 @
                   [Progress (''Processing file '' @ show_nat (length xs + 1) @ ''/'' @
                      show_nat ?n @ '': '' @ originalname f)] @
                   map Progress (fst (extractText svc rt f)) @
                   [LogError (''Error processing files: '' @ e), Progress (''Error: '' @ e)]\<rparr>)"
      by (simp add: reached)
    then have "fst (processFile svc (xs @ f # ys) rt st) = Inl e
          \<and> events (snd (processFile svc (xs @ f # ys) rt st)) =
              events st @ (evs1 @
                   [Progress (''Processing file '' @ show_nat (length xs + 1) @ ''/'' @
                      show_nat ?n @ '': '' @ originalname f)] @
                   map Progress (fst (extractText svc rt f))) @
              [LogError (''Error processing files: '' @ e), Progress (''Error: '' @ e)]"
      by (simp add: evs1)
    then show ?thesis
      by blast
  qed
  from a b d last reached earlier c show ?thesis
    by blast
qed

theorem processFile_extraction_failure_aborts_witness:
  "fst (processFile plain_services
          [\<lparr>originalname = ''a.txt'', mimetype = ''text/plain'', buffer = ''alpha''\<rparr>,
           \<lparr>originalname = ''scan.pdf'', mimetype = ''application/pdf'', buffer = ''corrupt''\<rparr>,
           \<lparr>originalname = ''b.txt'', mimetype = ''text/plain'', buffer = ''beta''\<rparr>]
          False empty_state) = Inl ''Invalid PDF structure''
   \<and> store (snd (processFile plain_services
          [\<lparr>originalname = ''a.txt'', mimetype = ''text/plain'', buffer = ''alpha''\<rparr>,
           \<lparr>originalname = ''scan.pdf'', mimetype = ''application/pdf'', buffer = ''corrupt''\<rparr>,
           \<lparr>originalname = ''b.txt'', mimetype = ''text/plain'', buffer = ''beta''\<rparr>]
          False empty_state))
     = store (snd (processFile plain_services
          [\<lparr>originalname = ''a.txt'', mimetype = ''text/plain'', buffer = ''alpha''\<rparr>]
          False empty_state))
   \<and> (\<exists>evs. events (snd (processFile plain_services
          [\<lparr>originalname = ''a.txt'', mimetype = ''text/plain'', buffer = ''alpha''\<rparr>,
           \<lparr>originalname = ''scan.pdf'', mimetype = ''application/pdf'', buffer = ''corrupt''\<rparr>,
           \<lparr>originalname = ''b.txt'', mimetype = ''text/plain'', buffer = ''beta''\<rparr>]
          False empty_state))
        = evs @ [Progress ''Processing file 2/3: scan.pdf'', Progress ''Extracting text from PDF'',
                 LogError ''Error processing files: Invalid PDF structure'',
                 Progress ''Error: Invalid PDF structure''])
   \<and> store (snd (processFile plain_services
          [\<lparr>originalname = ''scan.pdf'', mimetype = ''application/pdf'', buffer = ''corrupt''\<rparr>,
           \<lparr>originalname = ''b.txt'', mimetype = ''text/plain'', buffer = ''beta''\<rparr>]
          False empty_state)) = store empty_state"
proof -
  let ?a = "\<lparr>originalname = ''a.txt'', mimetype = ''text/plain'', buffer = ''alpha''\<rparr>"
  let ?f = "\<lparr>originalname = ''scan.pdf'', mimetype = ''application/pdf'', buffer = ''corrupt''\<rparr>"
  let ?b = "\<lparr>originalname = ''b.txt'', mimetype = ''text/plain'', buffer = ''beta''\<rparr>"
  have h: "snd (extractText plain_services False ?f) = Inl ''Invalid PDF structure''"
    by (simp add: extractText_def plain_services_def)
  have msgs: "fst (extractText plain_services False ?f) = [''Extracting text from PDF'']"
    by (simp add: extractText_def)
  have num: "show_nat (length [?a] + 1) = ''2''" "show_nat (length ([?a] @ ?f # [?b])) = ''3''"
    by (simp_all add: show_nat.simps char_of_def bit_simps)
  have "\<exists>acc st1. processFile_loop plain_services False (length ([?a] @ ?f # [?b])) 0 [?a] (0, [])
          empty_state = (Inr acc, st1)"
    by (simp add: extractText_def plain_services_def noContent_def js_trim_def is_space_def
          code_def Let_def)
  then obtain acc st1 where
    before: "processFile_loop plain_services False (length ([?a] @ ?f # [?b])) 0 [?a] (0, [])
          empty_state = (Inr acc, st1)"
    by blast
  note aborts = processFile_extraction_failure_aborts [OF h, of "[?a]" "[?b]" empty_state]
  from aborts before
  have "processFile plain_services ([?a] @ ?f # [?b]) False empty_state =
            (Inl ''Invalid PDF structure'',
             st1\<lparr>events := events st1 @
                   [Progress (''Processing file '' @ show_nat (length [?a] + 1) @ ''/'' @
                      show_nat (length ([?a] @ ?f # [?b])) @ '': '' @ originalname ?f)] @
                   map Progress (fst (extractText plain_services False ?f)) @
                   [LogError (''Error processing files: '' @ ''Invalid PDF structure''),
                    Progress (''Error: '' @ ''Invalid PDF structure'')]\<rparr>)"
    by blast
  then have run: "processFile plain_services [?a, ?f, ?b] False empty_state =
            (Inl ''Invalid PDF structure'',
             st1\<lparr>events := events st1 @
                   [Progress ''Processing file 2/3: scan.pdf'', Progress ''Extracting text from PDF'',
                    LogError ''Error processing files: Invalid PDF structure'',
                    Progress ''Error: Invalid PDF structure'']\<rparr>)"
    unfolding num msgs by simp
  from aborts have kept: "store (snd (processFile plain_services ([?a] @ ?f # [?b]) False empty_state))
      = store (snd (processFile plain_services [?a] False empty_state))"
    by blast
  from processFile_extraction_failure_aborts [OF h, of "[]" "[?b]" empty_state]
  have first: "store (snd (processFile plain_services (?f # [?b]) False empty_state)) = store empty_state"
    by simp
  from run kept first show ?thesis
    by auto
qed

text \<open>
  Claim C3 as stated fails: of two files, the first corrupt and the second a sound text
  file, the call throws the parser's exception and the second file is never stored,
  although the second file alone is stored.
\<close>

theorem processFile_failure_stops_remaining_files:
  "fst (processFile plain_services
          [\<lparr>originalname = ''scan.pdf'', mimetype = ''application/pdf'', buffer = ''corrupt''\<rparr>,
           \<lparr>originalname = ''b.txt'', mimetype = ''text/plain'', buffer = ''beta''\<rparr>]
          False empty_state) = Inl ''Invalid PDF structure''
   \<and> store (snd (processFile plain_services
          [\<lparr>originalname = ''scan.pdf'', mimetype = ''application/pdf'', buffer = ''corrupt''\<rparr>,
           \<lparr>originalname = ''b.txt'', mimetype = ''text/plain'', buffer = ''beta''\<rparr>]
          False empty_state)) = []
   \<and> store (snd (processFile plain_services
          [\<lparr>originalname = ''b.txt'', mimetype = ''text/plain'', buffer = ''beta''\<rparr>]
          False empty_state))
       = [\<lparr>pageContent = ''beta'', metadata = [(''source'', ''b.txt'')]\<rparr>]"
  by (simp add: extractText_def plain_services_def noContent_def js_trim_def is_space_def
        code_def processFile_def rethrow_def Let_def emit_def empty_state_def)


subsection \<open>Bulk processing\<close>

lemma js_slice_window:
  "i < length xs \<Longrightarrow> 0 < b \<Longrightarrow> js_slice xs (int i) (int i + int b) = take b (drop i xs)"
  by (auto simp: js_slice_def Let_def min_def take_all_iff)

lemma bulk_loop_obs:
  "0 < b \<Longrightarrow>
   map_option obs (processBulk_loop svc (Some (int b)) docs (Some (int i)) tc st) =
     Some (run_batches svc (batches b (drop i docs)) tc (store st))"
proof (induction "length docs - i" arbitrary: i tc st rule: less_induct)
  case less
  show ?case
  proof (cases "i < length docs")
    case False
    then have "batches b (drop i docs) = []"
      by (simp add: batches.simps)
    with False show ?thesis
      by (subst processBulk_loop.simps) (simp add: obs_def js_less_length_def)
  next
    case True
    then have bs: "batches b (drop i docs) = take b (drop i docs) # batches b (drop (i + b) docs)"
      using less.prems by (subst batches.simps) (simp add: add.commute)
    have smaller: "length docs - (i + b) < length docs - i"
      using True less.prems by simp
    have IH: "map_option obs (processBulk_loop svc (Some (int b)) docs (Some (int i + int b)) tc' st') =
        Some (run_batches svc (batches b (drop (i + b) docs)) tc' (store st'))" for tc' st'
      using less.hyps [OF smaller less.prems, of tc' st'] by simp
    have slice: "js_slice docs (to_index (Some (int i)))
                   (to_index (js_plus (Some (int i)) (Some (int b)))) = take b (drop i docs)"
      using True less.prems by (simp add: to_index_def js_plus_def js_slice_window)
    show ?thesis
    proof (cases "splitDocuments svc (take b (drop i docs))")
      case (Inl e)
      with True bs slice show ?thesis
        by (subst processBulk_loop.simps) (simp add: obs_def js_less_length_def)
    next
      case (Inr chunks)
      obtain r s' where add: "addDocuments svc (store st) chunks = (r, s')"
        by (cases "addDocuments svc (store st) chunks")
      show ?thesis
      proof (cases r)
        case (Some e)
        with True bs slice Inr add show ?thesis
          by (subst processBulk_loop.simps) (simp add: obs_def js_less_length_def)
      next
        case None
        let ?st' = "emit (BatchProgress (currentBatch (Some (int i)) (Some (int b)))
                            (totalBatches (length docs) (Some (int b))) (tc + length chunks))
                      (st\<lparr>store := s'\<rparr>)"
        have step: "processBulk_loop svc (Some (int b)) docs (Some (int i)) tc st =
            processBulk_loop svc (Some (int b)) docs (Some (int i + int b)) (tc + length chunks) ?st'"
          using None True slice Inr add
          by (subst processBulk_loop.simps) (simp add: js_less_length_def js_plus_def)
        show ?thesis
          using IH [of "tc + length chunks" ?st'] bs Inr add None
          by (simp add: step)
      qed
    qed
  qed
qed

lemma processBulkDocuments_obs:
  assumes "0 < b" and "batchSizeOf env = Some (int b)"
  shows "map_option obs (processBulkDocuments svc env docs st) =
           Some (run_batches svc (batches b docs) 0 (store st))"
proof -
  let ?st0 = "emit (LogInfo (''Processing '' @ show_nat (length docs) @ '' documents in bulk'')) st"
  have "map_option obs (processBulk_loop svc (Some (int b)) docs (Some (int 0)) 0 ?st0) =
          Some (run_batches svc (batches b (drop 0 docs)) 0 (store ?st0))"
    using assms(1) by (rule bulk_loop_obs)
  then obtain out st1 where
    loop: "processBulk_loop svc (Some (int b)) docs (Some 0) 0 ?st0 = Some (out, st1)" and
    run: "(out, store st1) = run_batches svc (batches b docs) 0 (store st)"
    by (auto simp: obs_def)
  show ?thesis
    using loop run assms(2)
    by (cases out) (simp_all add: processBulkDocuments_def obs_def)
qed

lemma concat_batches: "0 < n \<Longrightarrow> concat (batches n xs) = xs"
proof (induction n xs rule: batches.induct)
  case (1 n xs)
  then show ?case
    by (subst batches.simps) auto
qed

lemma batches_sizes: "x \<in> set (batches n xs) \<Longrightarrow> x \<noteq> [] \<and> length x \<le> n"
proof (induction n xs rule: batches.induct)
  case (1 n xs)
  from "1.prems" have ne: "\<not> (n = 0 \<or> xs = [])"
    by (subst (asm) batches.simps) (auto split: if_splits)
  with "1.prems" have "x = take n xs \<or> x \<in> set (batches n (drop n xs))"
    by (subst (asm) batches.simps) auto
  with ne "1.IH" show ?case
    by auto
qed

lemma batches_full: "x \<in> set (butlast (batches n xs)) \<Longrightarrow> length x = n"
proof (induction n xs rule: batches.induct)
  case (1 n xs)
  from "1.prems" have ne: "\<not> (n = 0 \<or> xs = [])"
    by (subst (asm) batches.simps) (auto split: if_splits)
  then have eq: "batches n xs = take n xs # batches n (drop n xs)"
    by (subst batches.simps) simp
  show ?case
  proof (cases "batches n (drop n xs) = []")
    case True
    with eq "1.prems" show ?thesis by simp
  next
    case False
    then have "drop n xs \<noteq> []"
      by (subst (asm) batches.simps) auto
    then have "length (take n xs) = n" by simp
    with False eq "1.prems" "1.IH" [OF ne] show ?thesis
      by auto
  qed
qed

lemma run_batches_total:
  "run_batches svc bs tc s = (Inr t, s') \<Longrightarrow>
   \<exists>chunkss. map (splitDocuments svc) bs = map Inr chunkss \<and> t = tc + sum_list (map length chunkss)"
proof (induction bs arbitrary: tc s)
  case Nil
  then show ?case by simp
next
  case (Cons b bs)
  from Cons.prems obtain chunks s1 where
    c: "splitDocuments svc b = Inr chunks" and
    r: "run_batches svc bs (tc + length chunks) s1 = (Inr t, s')"
    by (auto split: sum.splits prod.splits option.splits)
  from Cons.IH [OF r] obtain chunkss where
    "map (splitDocuments svc) bs = map Inr chunkss" "t = tc + length chunks + sum_list (map length chunkss)"
    by auto
  with c have "map (splitDocuments svc) (b # bs) = map Inr (chunks # chunkss)
      \<and> t = tc + sum_list (map length (chunks # chunkss))"
    by simp
  then show ?case by blast
qed



lemma run_batches_store_chunks:
  "map (splitDocuments svc) bs = map Inr chunkss \<Longrightarrow>
   run_batches svc bs tc s = store_chunks svc chunkss tc s"
proof (induction bs arbitrary: chunkss tc s)
  case Nil
  then show ?case by simp
next
  case (Cons b bs)
  then obtain chunks rest where
    "chunkss = chunks # rest" "splitDocuments svc b = Inr chunks"
    "map (splitDocuments svc) bs = map Inr rest"
    by (cases chunkss) auto
  with Cons.IH [of rest] show ?case
    by (simp split: prod.splits option.splits)
qed

lemma store_chunks_never_failing:
  assumes "\<And>s ds. addDocuments svc s ds = (None, app s ds)"
  shows "store_chunks svc chunkss tc s = (Inr (tc + sum_list (map length chunkss)), foldl app s chunkss)"
  by (induction chunkss arbitrary: tc s) (simp_all add: assms)

lemma bulk_loop_never_returns:
  assumes nonpos: "n \<le> 0" and docs: "documents \<noteq> []"
    and split_ok: "\<And>ds. \<not> isl (splitDocuments svc ds)"
    and add_ok: "\<And>s ds. fst (addDocuments svc s ds) = None"
    and start: "k \<le> 0"
  shows "processBulk_loop svc (Some n) documents (Some k) tc st = None"
proof (rule ccontr)
  assume "processBulk_loop svc (Some n) documents (Some k) tc st \<noteq> None"
  then obtain y where ret: "processBulk_loop svc (Some n) documents (Some k) tc st = Some y"
    by auto
  have "\<not> (svc = svc \<and> Some n = Some n \<and> documents = documents \<and> (\<exists>j \<le> 0. Some k = Some j))"
  proof (rule processBulk_loop.raw_induct
      [where P = "\<lambda>s b d i t u y. \<not> (s = svc \<and> b = Some n \<and> d = documents \<and> (\<exists>j \<le> 0. i = Some j))",
       OF _ ret])
    fix loop s b d i t u y'
    assume IH: "\<And>s b d i t u y. loop s b d i t u = Some y \<Longrightarrow>
                  \<not> (s = svc \<and> b = Some n \<and> d = documents \<and> (\<exists>j \<le> 0. i = Some j))"
      and body: "(if js_less_length i (length d) then
                    (case splitDocuments s (js_slice d (to_index i) (to_index (js_plus i b))) of
                       Inl e \<Rightarrow> Some (Inl e, u)
                     | Inr chunks \<Rightarrow>
                         (case addDocuments s (store u) chunks of
                            (None, s') \<Rightarrow>
                              loop s b d (js_plus i b) (t + length chunks)
                                (emit (BatchProgress (currentBatch i b)
                                         (totalBatches (length d) b) (t + length chunks))
                                   (u\<lparr>store := s'\<rparr>))
                          | (Some e, s') \<Rightarrow> Some (Inl e, u\<lparr>store := s'\<rparr>)))
                  else Some (Inr t, u)) = Some y'"
    show "\<not> (s = svc \<and> b = Some n \<and> d = documents \<and> (\<exists>j \<le> 0. i = Some j))"
    proof
      assume a: "s = svc \<and> b = Some n \<and> d = documents \<and> (\<exists>j \<le> 0. i = Some j)"
      then obtain j where j: "i = Some j" "j \<le> 0"
        by auto
      have lt: "js_less_length i (length d)"
        using a j docs by (cases d) (auto simp: js_less_length_def)
      have next_i: "js_plus i b = Some (j + n)"
        using a j by (simp add: js_plus_def)
      let ?batch = "js_slice documents (to_index i) (to_index (js_plus i b))"
      obtain chunks where c: "splitDocuments svc ?batch = Inr chunks"
        using split_ok [of ?batch] by (cases "splitDocuments svc ?batch") auto
      obtain s' where ad: "addDocuments svc (store u) chunks = (None, s')"
        using add_ok [of "store u" chunks] by (cases "addDocuments svc (store u) chunks") auto
      from body a lt c ad next_i obtain t2 u2 where
        "loop svc (Some n) documents (Some (j + n)) t2 u2 = Some y'"
        by auto
      from IH [OF this] j nonpos show False
        by simp
    qed
  qed
  with start show False
    by simp
qed

lemma bulk_no_number:
  "map_option obs (processBulk_loop svc None docs (Some 0) 0 st) =
     Some (if docs = [] then (Inr 0, store st) else run_batches svc [[]] 0 (store st))"
proof (cases "docs = []")
  case True
  then show ?thesis
    by (subst processBulk_loop.simps) (simp add: js_less_length_def obs_def)
next
  case False
  have stop: "processBulk_loop svc None docs None tc' st' = Some (Inr tc', st')" for tc' st'
    by (subst processBulk_loop.simps) (simp add: js_less_length_def)
  from False show ?thesis
    by (subst processBulk_loop.simps)
       (auto simp: js_less_length_def js_plus_def to_index_def js_slice_def stop obs_def
             split: sum.splits prod.splits option.splits)
qed

lemma batch_size_positive:
  assumes "env = Unset \<and> b = 128 \<or> env = Integer (int b) \<and> 0 < b"
  shows "0 < b" and "batchSizeOf env = Some (int b)"
  using assms by (auto simp: batchSizeOf_def)

text \<open>
  Claim C8, as the code has it. When the variable denotes a positive integer, or is unset
  and 128 stands for it, \<^verbatim>\<open>processBulkDocuments\<close> returns, and what it returns and stores
  is the run over the consecutive batches of that size: the batches put together give the
  documents in their order, every batch but the last has exactly that size and the last
  has at most that size, and a returned \<^verbatim>\<open>chunksAdded\<close> is the sum of the numbers of
  chunks the splitter gave for the batches.
\<close>

theorem processBulkDocuments_batches:
  assumes "env = Unset \<and> b = 128 \<or> env = Integer (int b) \<and> 0 < b"
  shows "(\<exists>out st'. processBulkDocuments svc env documents st = Some (out, st')
          \<and> (out, store st') = run_batches svc (batches b documents) 0 (store st)
          \<and> (\<forall>chunksAdded. out = Inr chunksAdded \<longrightarrow>
                (\<exists>chunkss. map (splitDocuments svc) (batches b documents) = map Inr chunkss
                           \<and> chunksAdded = sum_list (map length chunkss))))
    \<and> concat (batches b documents) = documents
    \<and> (\<forall>x \<in> set (batches b documents). x \<noteq> [] \<and> length x \<le> b)
    \<and> (\<forall>x \<in> set (butlast (batches b documents)). length x = b)"
proof -
  note b = batch_size_positive [OF assms]
  have "map_option obs (processBulkDocuments svc env documents st) =
          Some (run_batches svc (batches b documents) 0 (store st))"
    using b by (rule processBulkDocuments_obs)
  then obtain out st1 where
    call: "processBulkDocuments svc env documents st = Some (out, st1)" and
    run: "(out, store st1) = run_batches svc (batches b documents) 0 (store st)"
    by (auto simp: obs_def)
  have total: "\<exists>chunkss. map (splitDocuments svc) (batches b documents) = map Inr chunkss
                 \<and> n = sum_list (map length chunkss)" if "out = Inr n" for n
    using run_batches_total [of svc "batches b documents" 0 "store st" n "store st1"] run that
    by simp
  have ret: "\<exists>out st'. processBulkDocuments svc env documents st = Some (out, st')
          \<and> (out, store st') = run_batches svc (batches b documents) 0 (store st)
          \<and> (\<forall>chunksAdded. out = Inr chunksAdded \<longrightarrow>
                (\<exists>chunkss. map (splitDocuments svc) (batches b documents) = map Inr chunkss
                           \<and> chunksAdded = sum_list (map length chunkss)))"
    using call run total by blast
  have cat: "concat (batches b documents) = documents"
    using b(1) by (rule concat_batches)
  have sizes: "\<forall>x \<in> set (batches b documents). x \<noteq> [] \<and> length x \<le> b"
    using batches_sizes by blast
  have full: "\<forall>x \<in> set (butlast (batches b documents)). length x = b"
    using batches_full by blast
  from ret cat sizes full show ?thesis
    by blast
qed

theorem processBulkDocuments_batches_witness:
  "map_option obs (processBulkDocuments joining_services (Integer 2)
       [\<lparr>pageContent = ''a'', metadata = []\<rparr>, \<lparr>pageContent = ''b'', metadata = []\<rparr>,
        \<lparr>pageContent = ''c'', metadata = []\<rparr>] empty_state)
     = Some (Inr 2, [\<lparr>pageContent = ''ab'', metadata = []\<rparr>, \<lparr>pageContent = ''c'', metadata = []\<rparr>])
   \<and> map_option obs (processBulkDocuments joining_services Unset
       [\<lparr>pageContent = ''a'', metadata = []\<rparr>, \<lparr>pageContent = ''b'', metadata = []\<rparr>,
        \<lparr>pageContent = ''c'', metadata = []\<rparr>] empty_state)
     = Some (Inr 1, [\<lparr>pageContent = ''abc'', metadata = []\<rparr>])"
proof -
  let ?docs = "[\<lparr>pageContent = ''a'', metadata = []\<rparr>, \<lparr>pageContent = ''b'', metadata = []\<rparr>,
                \<lparr>pageContent = ''c'', metadata = []\<rparr>]"
  have h2: "Integer 2 = Unset \<and> (2::nat) = 128 \<or> Integer 2 = Integer (int 2) \<and> (0::nat) < 2"
    by simp
  have h128: "Unset = Unset \<and> (128::nat) = 128 \<or> Unset = Integer (int 128) \<and> (0::nat) < 128"
    by simp
  have run2: "run_batches joining_services (batches 2 ?docs) 0 (store empty_state)
      = (Inr 2, [\<lparr>pageContent = ''ab'', metadata = []\<rparr>, \<lparr>pageContent = ''c'', metadata = []\<rparr>])"
    by (simp add: batches.simps joining_services_def plain_services_def empty_state_def)
  have run128: "run_batches joining_services (batches 128 ?docs) 0 (store empty_state)
      = (Inr 1, [\<lparr>pageContent = ''abc'', metadata = []\<rparr>])"
    by (simp add: batches.simps joining_services_def plain_services_def empty_state_def)
  from processBulkDocuments_batches [OF h2, of joining_services ?docs empty_state] run2
  have a: "map_option obs (processBulkDocuments joining_services (Integer 2) ?docs empty_state)
      = Some (Inr 2, [\<lparr>pageContent = ''ab'', metadata = []\<rparr>, \<lparr>pageContent = ''c'', metadata = []\<rparr>])"
    by (auto simp: obs_def)
  from processBulkDocuments_batches [OF h128, of joining_services ?docs empty_state] run128
  have b: "map_option obs (processBulkDocuments joining_services Unset ?docs empty_state)
      = Some (Inr 1, [\<lparr>pageContent = ''abc'', metadata = []\<rparr>])"
    by (auto simp: obs_def)
  from a b show ?thesis
    by (rule conjI)
qed

text \<open>
  Claim C8 as stated fails: with the batch size 0 the index never advances, and the call
  on one document does not return.
\<close>

theorem processBulkDocuments_zero_batch_never_returns:
  "processBulkDocuments plain_services (Integer 0) [\<lparr>pageContent = ''a'', metadata = []\<rparr>]
     empty_state = None"
proof -
  have "processBulk_loop plain_services (Some 0) [\<lparr>pageContent = ''a'', metadata = []\<rparr>] (Some 0) tc st
          = None" for tc st
    by (rule bulk_loop_never_returns) (simp_all add: plain_services_def)
  then show ?thesis
    by (simp add: processBulkDocuments_def batchSizeOf_def)
qed


text \<open>
  Claim C1, as the code has it. \<^verbatim>\<open>processBulkDocuments\<close> derives no id: it hands the
  store's \<^verbatim>\<open>addDocuments\<close> the chunks of each batch and nothing else. Ingesting the
  same documents a second time with the same batch size splits the same batches into the
  same chunk lists and makes the same calls, in the same order, on the store the first
  ingestion left. What the second ingestion does to the vectors of the first is therefore
  the store's doing: with a store that never fails and absorbs a chunk list by \<open>app\<close>, the
  store after both ingestions is \<open>app\<close> applied over the chunk lists twice.
\<close>

theorem processBulkDocuments_twice:
  assumes "env = Unset \<and> b = 128 \<or> env = Integer (int b) \<and> 0 < b"
    and "processBulkDocuments svc env documents st = Some (Inr n, st1)"
  shows "\<exists>chunkss. map (splitDocuments svc) (batches b documents) = map Inr chunkss
      \<and> (Inr n, store st1) = store_chunks svc chunkss 0 (store st)
      \<and> (\<exists>out st2. processBulkDocuments svc env documents st1 = Some (out, st2)
            \<and> (out, store st2) = store_chunks svc chunkss 0 (store st1))
      \<and> (\<forall>app. (\<forall>s ds. addDocuments svc s ds = (None, app s ds)) \<longrightarrow>
            store st1 = foldl app (store st) chunkss
            \<and> (\<exists>st2. processBulkDocuments svc env documents st1 = Some (Inr n, st2)
                 \<and> store st2 = foldl app (foldl app (store st) chunkss) chunkss))"
proof -
  note b = batch_size_positive [OF assms(1)]
  have "map_option obs (processBulkDocuments svc env documents st) =
          Some (run_batches svc (batches b documents) 0 (store st))"
    using b by (rule processBulkDocuments_obs)
  with assms(2) have run1: "run_batches svc (batches b documents) 0 (store st) = (Inr n, store st1)"
    by (simp add: obs_def)
  from run_batches_total [OF run1] obtain chunkss where
    split: "map (splitDocuments svc) (batches b documents) = map Inr chunkss" and
    n: "n = sum_list (map length chunkss)"
    by auto
  have first: "(Inr n, store st1) = store_chunks svc chunkss 0 (store st)"
    using run1 run_batches_store_chunks [OF split, of 0 "store st"] by simp
  have "map_option obs (processBulkDocuments svc env documents st1) =
          Some (run_batches svc (batches b documents) 0 (store st1))"
    using b by (rule processBulkDocuments_obs)
  then obtain out st2 where
    call2: "processBulkDocuments svc env documents st1 = Some (out, st2)" and
    run2: "(out, store st2) = run_batches svc (batches b documents) 0 (store st1)"
    by (auto simp: obs_def)
  have second: "(out, store st2) = store_chunks svc chunkss 0 (store st1)"
    using run2 run_batches_store_chunks [OF split, of 0 "store st1"] by simp
  have absorbed: "store st1 = foldl app (store st) chunkss
            \<and> (\<exists>st2. processBulkDocuments svc env documents st1 = Some (Inr n, st2)
                 \<and> store st2 = foldl app (foldl app (store st) chunkss) chunkss)"
    if app: "\<forall>s ds. addDocuments svc s ds = (None, app s ds)" for app
  proof -
    have never: "store_chunks svc chunkss 0 s = (Inr n, foldl app s chunkss)" for s
      using store_chunks_never_failing [of svc app chunkss 0 s] app n by simp
    from first never have s1: "store st1 = foldl app (store st) chunkss"
      by simp
    from second never have "out = Inr n" "store st2 = foldl app (store st1) chunkss"
      by simp_all
    with call2 s1 show ?thesis
      by simp
  qed
  from split first call2 second absorbed show ?thesis
    by blast
qed

theorem processBulkDocuments_twice_witness:
  "\<exists>st1. processBulkDocuments plain_services (Integer 1)
            [\<lparr>pageContent = ''a'', metadata = []\<rparr>, \<lparr>pageContent = ''b'', metadata = []\<rparr>]
            empty_state = Some (Inr 2, st1)
        \<and> store st1 = [\<lparr>pageContent = ''a'', metadata = []\<rparr>, \<lparr>pageContent = ''b'', metadata = []\<rparr>]
        \<and> (\<exists>st2. processBulkDocuments plain_services (Integer 1)
                     [\<lparr>pageContent = ''a'', metadata = []\<rparr>, \<lparr>pageContent = ''b'', metadata = []\<rparr>]
                     st1 = Some (Inr 2, st2)
              \<and> store st2 = [\<lparr>pageContent = ''a'', metadata = []\<rparr>, \<lparr>pageContent = ''b'', metadata = []\<rparr>,
                              \<lparr>pageContent = ''a'', metadata = []\<rparr>, \<lparr>pageContent = ''b'', metadata = []\<rparr>])"
proof -
  let ?docs = "[\<lparr>pageContent = ''a'', metadata = []\<rparr>, \<lparr>pageContent = ''b'', metadata = []\<rparr>]"
  have size: "Integer 1 = Unset \<and> (1::nat) = 128 \<or> Integer 1 = Integer (int 1) \<and> (0::nat) < 1"
    by simp
  have bs: "batches 1 ?docs = [[\<lparr>pageContent = ''a'', metadata = []\<rparr>], [\<lparr>pageContent = ''b'', metadata = []\<rparr>]]"
    by (simp add: batches.simps)
  have "map_option obs (processBulkDocuments plain_services (Integer 1) ?docs empty_state) =
          Some (run_batches plain_services (batches 1 ?docs) 0 (store empty_state))"
    by (rule processBulkDocuments_obs) (simp_all add: batchSizeOf_def)
  moreover have "run_batches plain_services (batches 1 ?docs) 0 (store empty_state) = (Inr 2, ?docs)"
    unfolding bs by (simp add: plain_services_def empty_state_def)
  ultimately have "map_option obs (processBulkDocuments plain_services (Integer 1) ?docs empty_state) =
          Some (Inr 2, ?docs)"
    by (simp only:)
  then obtain st1 where
    first: "processBulkDocuments plain_services (Integer 1) ?docs empty_state = Some (Inr 2, st1)"
    by (auto simp: obs_def)
  have app: "\<forall>s ds. addDocuments plain_services s ds = (None, s @ ds)"
    by (simp add: plain_services_def)
  from processBulkDocuments_twice [OF size first] obtain chunkss where
    split: "map (splitDocuments plain_services) (batches 1 ?docs) = map Inr chunkss" and
    twice: "\<forall>app. (\<forall>s ds. addDocuments plain_services s ds = (None, app s ds)) \<longrightarrow>
            store st1 = foldl app (store empty_state) chunkss
            \<and> (\<exists>st2. processBulkDocuments plain_services (Integer 1) ?docs st1 = Some (Inr 2, st2)
                 \<and> store st2 = foldl app (foldl app (store empty_state) chunkss) chunkss)"
    by blast
  from split have chunkss: "chunkss = [[\<lparr>pageContent = ''a'', metadata = []\<rparr>], [\<lparr>pageContent = ''b'', metadata = []\<rparr>]]"
    unfolding bs by (auto simp: plain_services_def)
  from twice app have
    "store st1 = foldl (@) (store empty_state) chunkss
     \<and> (\<exists>st2. processBulkDocuments plain_services (Integer 1) ?docs st1 = Some (Inr 2, st2)
          \<and> store st2 = foldl (@) (foldl (@) (store empty_state) chunkss) chunkss)"
    by blast
  with first show ?thesis
    by (auto simp: chunkss empty_state_def)
qed

text \<open>
  Claim C1 as stated fails: with a store that appends the chunks it is given, the second
  ingestion of the same two documents leaves every chunk in the store twice.
\<close>

theorem processBulkDocuments_twice_duplicates:
  "map_option obs (processBulkDocuments plain_services Unset
       [\<lparr>pageContent = ''a'', metadata = []\<rparr>, \<lparr>pageContent = ''b'', metadata = []\<rparr>] empty_state)
     = Some (Inr 2, [\<lparr>pageContent = ''a'', metadata = []\<rparr>, \<lparr>pageContent = ''b'', metadata = []\<rparr>])
   \<and> Option.bind (processBulkDocuments plain_services Unset
          [\<lparr>pageContent = ''a'', metadata = []\<rparr>, \<lparr>pageContent = ''b'', metadata = []\<rparr>] empty_state)
        (\<lambda>r. map_option obs (processBulkDocuments plain_services Unset
          [\<lparr>pageContent = ''a'', metadata = []\<rparr>, \<lparr>pageContent = ''b'', metadata = []\<rparr>] (snd r)))
     = Some (Inr 2, [\<lparr>pageContent = ''a'', metadata = []\<rparr>, \<lparr>pageContent = ''b'', metadata = []\<rparr>,
                     \<lparr>pageContent = ''a'', metadata = []\<rparr>, \<lparr>pageContent = ''b'', metadata = []\<rparr>])"
proof -
  let ?docs = "[\<lparr>pageContent = ''a'', metadata = []\<rparr>, \<lparr>pageContent = ''b'', metadata = []\<rparr>]"
  have bs: "batches 128 ?docs = [?docs]"
    by (simp add: batches.simps)
  have run: "map_option obs (processBulkDocuments plain_services Unset ?docs st) =
          Some (run_batches plain_services (batches 128 ?docs) 0 (store st))" for st
    by (rule processBulkDocuments_obs) (simp_all add: batchSizeOf_def)
  have "run_batches plain_services (batches 128 ?docs) 0 (store empty_state) = (Inr 2, ?docs)"
    by (simp add: bs plain_services_def empty_state_def)
  with run [of empty_state]
  have first: "map_option obs (processBulkDocuments plain_services Unset ?docs empty_state)
      = Some (Inr 2, ?docs)"
    by (simp only:)
  then obtain st1 where
    st1: "processBulkDocuments plain_services Unset ?docs empty_state = Some (Inr 2, st1)"
      "store st1 = ?docs"
    by (auto simp: obs_def)
  have "run_batches plain_services (batches 128 ?docs) 0 (store st1) = (Inr 2, ?docs @ ?docs)"
    by (simp add: bs plain_services_def st1(2))
  with run [of st1]
  have "map_option obs (processBulkDocuments plain_services Unset ?docs st1)
      = Some (Inr 2, ?docs @ ?docs)"
    by (simp only:)
  with first st1(1) show ?thesis
    by simp
qed


subsection \<open>Collection statistics\<close>


















text \<open>
  The product is rounded as a double before \<^verbatim>\<open>Math.round\<close>: 500 sources in a sample
  of 1000 out of 1001 vectors give 500, the double nearest to 500.5 from below being
  rounded down.
\<close>

lemma estimate_double_rounding:
  "math_round (dbl_mul 500 (dbl_div 1001 1000)) = Num 500"
  by (simp add: math_round_def dbl_mul_def dbl_div_def fl_def binary_exponent_def
        bit_length.simps round_half_even_def Let_def)

text \<open>
  The size of the page is not checked before the division: for a collection that reports
  1500 vectors and serves an empty page the quotient is infinite and the product is not a
  number.
\<close>

lemma getCollectionStats_empty_page:
  "getCollectionStats (sample_client 1500 []) ''documents'' =
     Inr (Stats \<lparr>collectionExists = True, totalVectors = 1500, uniqueSources = NaN,
                 totalChunks = 1500, sampleSize = Some 0\<rparr>)"
  by (simp add: getCollectionStats_def sample_client_def uniqueSourcesOf_def
        dbl_div_def dbl_mul_def math_round_def Let_def)

end
